theory Spec2Isabelle
  imports Main "HOL-Library.Word" "HOL-Library.Multiset"
begin

unbundle bit_operations_syntax

section \<open>Changelog entries and version ranges (utils/diff-formatter.ts)\<close>

text \<open>types/changelog.ts: \<open>ChangeType\<close>, \<open>ChangelogChange\<close> and \<open>ChangelogEntry\<close>.\<close>

datatype ChangeType = Added | Changed | Deprecated | Removed | Fixed | Security

record ChangelogChange =
  type :: ChangeType
  description :: string

record ChangelogEntry =
  version :: string
  date :: string
  changes :: "ChangelogChange list"
  breaking :: "bool option"

text \<open>
  \<open>Array.prototype.findIndex\<close> with the predicate \<open>e.version === v\<close>: the index of
  the first entry that satisfies it, \<open>-1\<close> when there is none.
\<close>

fun findIndexFrom :: "int \<Rightarrow> ('a \<Rightarrow> bool) \<Rightarrow> 'a list \<Rightarrow> int" where
  "findIndexFrom k p [] = -1"
| "findIndexFrom k p (x # xs) = (if p x then k else findIndexFrom (k + 1) p xs)"

definition findIndex :: "('a \<Rightarrow> bool) \<Rightarrow> 'a list \<Rightarrow> int" where
  "findIndex p xs = findIndexFrom 0 p xs"

text \<open>
  \<open>Array.prototype.slice(start, end)\<close>: negative arguments count from the end of the
  array, both are clamped to its bounds, and the result is empty when the range is.
\<close>

definition slice :: "'a list \<Rightarrow> int \<Rightarrow> int \<Rightarrow> 'a list" where
  "slice xs start end =
     (let n = int (length xs);
          k = (if start < 0 then max (n + start) 0 else min start n);
          e = (if end < 0 then max (n + end) 0 else min end n)
      in take (nat (e - k)) (drop (nat k) xs))"

definition filterEntriesBetweenVersions ::
  "ChangelogEntry list \<Rightarrow> string \<Rightarrow> string \<Rightarrow> ChangelogEntry list" where
  "filterEntriesBetweenVersions entries fromVersion toVersion =
     (let fromIndex = findIndex (\<lambda>e. version e = fromVersion) entries;
          toIndex = findIndex (\<lambda>e. version e = toVersion) entries
      in if fromIndex = -1 \<or> toIndex = -1 then []
         else let start = min fromIndex toIndex;
                  end = max fromIndex toIndex
              in rev (slice entries start (end + 1)))"

section \<open>Lock file (utils/lock-file.ts, validators/lock-file.ts)\<close>

record ComponentLockEntry =
  installedVersion :: string
  installedAt :: string
  checksum :: string
  registryUrl :: "string option"

text \<open>
  \<open>LockFile\<close>: the optional \<open>$schema\<close>, the format \<open>version\<close>, and \<open>components\<close>, a
  plain object used as a dictionary from component names to entries. Its own
  properties are the map; what a lookup finds beyond them is inherited from
  \<open>Object.prototype\<close>.
\<close>

record LockFile =
  schema :: "string option"
  lockVersion :: string
  components :: "string \<rightharpoonup> ComponentLockEntry"

definition LOCK_FILE_VERSION :: string where
  "LOCK_FILE_VERSION = ''1.0''"

text \<open>The object literal \<open>{...lockFile, components: {...lockFile.components, [name]: entry}}\<close>.\<close>

definition updateComponentEntry ::
  "LockFile \<Rightarrow> string \<Rightarrow> ComponentLockEntry \<Rightarrow> LockFile" where
  "updateComponentEntry lockFile componentName entry =
     lockFile\<lparr>components := (components lockFile)(componentName \<mapsto> entry)\<rparr>"

text \<open>
  The rest pattern \<open>{[componentName]: _, ...remainingComponents}\<close> copies every own
  property but the named one.
\<close>

definition removeComponentEntry :: "LockFile \<Rightarrow> string \<Rightarrow> LockFile" where
  "removeComponentEntry lockFile componentName =
     lockFile\<lparr>components := (components lockFile)(componentName := None)\<rparr>"

text \<open>
  Reading a property of the \<open>components\<close> object gives an own entry, a member
  inherited from \<open>Object.prototype\<close> (a function, or the prototype object itself
  for \<open>__proto__\<close>), or \<open>undefined\<close>.
\<close>

datatype property = Undefined | Own ComponentLockEntry | Inherited string

definition objectPrototype :: "string list" where
  "objectPrototype =
     [''constructor'', ''__defineGetter__'', ''__defineSetter__'', ''hasOwnProperty'',
      ''__lookupGetter__'', ''__lookupSetter__'', ''isPrototypeOf'',
      ''propertyIsEnumerable'', ''toString'', ''valueOf'', ''__proto__'',
      ''toLocaleString'']"

definition getProperty :: "(string \<rightharpoonup> ComponentLockEntry) \<Rightarrow> string \<Rightarrow> property" where
  "getProperty obj name =
     (case obj name of
        Some e \<Rightarrow> Own e
      | None \<Rightarrow> if name \<in> set objectPrototype then Inherited name else Undefined)"

text \<open>The \<open>in\<close> operator: an own property or one found on the prototype chain.\<close>

definition hasProperty :: "(string \<rightharpoonup> ComponentLockEntry) \<Rightarrow> string \<Rightarrow> bool" where
  "hasProperty obj name = (obj name \<noteq> None \<or> name \<in> set objectPrototype)"

text \<open>Truthiness: objects and functions are truthy, \<open>undefined\<close> is falsy.\<close>

fun truthy :: "property \<Rightarrow> bool" where
  "truthy Undefined = False"
| "truthy (Own e) = True"
| "truthy (Inherited n) = True"

definition isComponentTracked :: "LockFile \<Rightarrow> string \<Rightarrow> bool" where
  "isComponentTracked lockFile componentName =
     hasProperty (components lockFile) componentName"

text \<open>\<open>lockFile.components[componentName] || null\<close>; \<open>None\<close> is \<open>null\<close>.\<close>

definition getComponentEntry :: "LockFile \<Rightarrow> string \<Rightarrow> property option" where
  "getComponentEntry lockFile componentName =
     (let v = getProperty (components lockFile) componentName
      in if truthy v then Some v else None)"

section \<open>Content checksums (utils/checksum.ts, validators/lock-file.ts)\<close>

text \<open>
  A file's content is modelled as a \<open>string\<close> whose characters are the UTF-8 code
  units of the text: \<open>readFile(path, "utf-8")\<close> decodes them and
  \<open>hash.update(text, "utf-8")\<close> encodes the text again, and carriage return and line
  feed are single code units that occur in no longer sequence, so replacing in the
  text and replacing in its code units are the same.

  \<open>content.replace(/\r\n/g, "\n")\<close>: one scan from the left; each carriage return
  directly followed by a line feed is replaced by the line feed, and the scan goes
  on after the pair.
\<close>

fun replaceCRLF :: "string \<Rightarrow> string" where
  "replaceCRLF [] = []"
| "replaceCRLF [c] = [c]"
| "replaceCRLF (c # d # cs) =
     (if c = CHR 0x0D \<and> d = CHR 0x0A then CHR 0x0A # replaceCRLF cs
      else c # replaceCRLF (d # cs))"

text \<open>
  Modelled from the spec: \<open>createHash("sha256")\<close> of Node's \<open>crypto\<close> module is not
  repository code. The spec (4.2) has it compute a cryptographic digest of the
  encoded text, named SHA-256 by the checksum's prefix and the source's comments;
  the definitions below are that function as FIPS 180-4 defines it, on 32-bit words.
\<close>

type_synonym byte = "8 word"
type_synonym word32 = "32 word"
type_synonym state256 =
  "word32 \<times> word32 \<times> word32 \<times> word32 \<times> word32 \<times> word32 \<times> word32 \<times> word32"

definition rotr :: "nat \<Rightarrow> word32 \<Rightarrow> word32" where
  "rotr n x = drop_bit n x OR push_bit (32 - n) x"

definition Ch :: "word32 \<Rightarrow> word32 \<Rightarrow> word32 \<Rightarrow> word32" where
  "Ch x y z = (x AND y) XOR (NOT x AND z)"

definition Maj :: "word32 \<Rightarrow> word32 \<Rightarrow> word32 \<Rightarrow> word32" where
  "Maj x y z = (x AND y) XOR (x AND z) XOR (y AND z)"

definition bsig0 :: "word32 \<Rightarrow> word32" where
  "bsig0 x = rotr 2 x XOR rotr 13 x XOR rotr 22 x"

definition bsig1 :: "word32 \<Rightarrow> word32" where
  "bsig1 x = rotr 6 x XOR rotr 11 x XOR rotr 25 x"

definition ssig0 :: "word32 \<Rightarrow> word32" where
  "ssig0 x = rotr 7 x XOR rotr 18 x XOR drop_bit 3 x"

definition ssig1 :: "word32 \<Rightarrow> word32" where
  "ssig1 x = rotr 17 x XOR rotr 19 x XOR drop_bit 10 x"

text \<open>The round constants and the initial hash value, in decimal.\<close>

definition K256 :: "word32 list" where
  "K256 =
     [1116352408, 1899447441, 3049323471, 3921009573, 961987163, 1508970993,
      2453635748, 2870763221, 3624381080, 310598401, 607225278, 1426881987,
      1925078388, 2162078206, 2614888103, 3248222580, 3835390401, 4022224774,
      264347078, 604807628, 770255983, 1249150122, 1555081692, 1996064986,
      2554220882, 2821834349, 2952996808, 3210313671, 3336571891, 3584528711,
      113926993, 338241895, 666307205, 773529912, 1294757372, 1396182291,
      1695183700, 1986661051, 2177026350, 2456956037, 2730485921, 2820302411,
      3259730800, 3345764771, 3516065817, 3600352804, 4094571909, 275423344,
      430227734, 506948616, 659060556, 883997877, 958139571, 1322822218,
      1537002063, 1747873779, 1955562222, 2024104815, 2227730452, 2361852424,
      2428436474, 2756734187, 3204031479, 3329325298]"

definition H256 :: state256 where
  "H256 =
     (1779033703, 3144134277, 1013904242, 2773480762,
      1359893119, 2600822924, 528734635, 1541459225)"

text \<open>
  Padding: the byte \<open>0x80\<close>, zero bytes up to 56 modulo 64, and the length of the
  message in bits as a 64-bit big-endian number.
\<close>

definition pad :: "byte list \<Rightarrow> byte list" where
  "pad msg =
     (let l = length msg;
          bits = (word_of_nat (8 * l) :: 64 word)
      in msg @ [0x80] @ replicate (nat ((55 - int l) mod 64)) 0 @
         map (\<lambda>i. ucast (drop_bit (8 * i) bits)) [7, 6, 5, 4, 3, 2, 1, 0])"

definition be32 :: "byte list \<Rightarrow> word32" where
  "be32 bs = foldl (\<lambda>acc b. push_bit 8 acc OR ucast b) 0 bs"

text \<open>The padded message as blocks of sixteen big-endian words.\<close>

definition messageBlocks :: "byte list \<Rightarrow> word32 list list" where
  "messageBlocks m =
     map (\<lambda>i. map (\<lambda>t. be32 (take 4 (drop (64 * i + 4 * t) m))) [0 ..< 16])
       [0 ..< length m div 64]"

text \<open>The message schedule: \<open>expand 48\<close> extends the sixteen words of a block to 64.\<close>

fun expand :: "nat \<Rightarrow> word32 list \<Rightarrow> word32 list" where
  "expand 0 w = w"
| "expand (Suc n) w =
     (let t = length w
      in expand n (w @ [ssig1 (w ! (t - 2)) + w ! (t - 7) + ssig0 (w ! (t - 15)) + w ! (t - 16)]))"

fun round256 :: "state256 \<Rightarrow> word32 \<times> word32 \<Rightarrow> state256" where
  "round256 (a, b, c, d, e, f, g, h) (k, w) =
     (let t1 = h + bsig1 e + Ch e f g + k + w;
          t2 = bsig0 a + Maj a b c
      in (t1 + t2, a, b, c, d + t1, e, f, g))"

fun add256 :: "state256 \<Rightarrow> state256 \<Rightarrow> state256" where
  "add256 (a, b, c, d, e, f, g, h) (a', b', c', d', e', f', g', h') =
     (a + a', b + b', c + c', d + d', e + e', f + f', g + g', h + h')"

definition compress :: "state256 \<Rightarrow> word32 list \<Rightarrow> state256" where
  "compress h m = add256 h (foldl round256 h (zip K256 (expand 48 m)))"

definition sha256 :: "byte list \<Rightarrow> state256" where
  "sha256 msg = foldl compress H256 (messageBlocks (pad msg))"

text \<open>\<open>hash.digest("hex")\<close>: the 32 bytes of the digest as 64 lowercase hex digits.\<close>

definition hexDigit :: "nat \<Rightarrow> char" where
  "hexDigit n = ''0123456789abcdef'' ! n"

definition hex32 :: "word32 \<Rightarrow> string" where
  "hex32 w = map (\<lambda>i. hexDigit (unat (drop_bit (4 * i) w AND 15))) [7, 6, 5, 4, 3, 2, 1, 0]"

fun hexDigest :: "state256 \<Rightarrow> string" where
  "hexDigest (a, b, c, d, e, f, g, h) = concat (map hex32 [a, b, c, d, e, f, g, h])"

text \<open>\<open>computeChecksum\<close>, as a function of the content of the file at \<open>filePath\<close>.\<close>

definition computeChecksum :: "string \<Rightarrow> string" where
  "computeChecksum content =
     (let normalizedContent = replaceCRLF content;
          digest = hexDigest (sha256 (map of_char normalizedContent))
      in ''sha256:'' @ digest)"

definition compareChecksums :: "string \<Rightarrow> string \<Rightarrow> bool" where
  "compareChecksums expected actual = (expected = actual)"

text \<open>
  \<open>checksumSchema\<close>: the pattern \<open>/^sha256:[a-f0-9]{64}$/\<close> matches the whole string,
  the prefix followed by exactly 64 characters of the class.
\<close>

definition checksumSchema :: "string \<Rightarrow> bool" where
  "checksumSchema s =
     (take 7 s = ''sha256:'' \<and> length (drop 7 s) = 64 \<and>
      list_all (\<lambda>c. c \<in> set ''abcdef0123456789'') (drop 7 s))"

text \<open>\<open>String.prototype.includesStr\<close>: the pattern occurs at some position of the string.\<close>

fun includesStr :: "string \<Rightarrow> string \<Rightarrow> bool" where
  "includesStr [] pat = (pat = [])"
| "includesStr (c # cs) pat = (take (length pat) (c # cs) = pat \<or> includesStr cs pat)"

section \<open>Three-way merge (utils/merge.ts)\<close>

text \<open>
  \<open>String.prototype.split("\n")\<close> and \<open>Array.prototype.join("\n")\<close>: a string with
  \<open>n\<close> line feeds splits into \<open>n + 1\<close> lines, the empty string into one empty line.
\<close>

fun splitLines :: "string \<Rightarrow> string list" where
  "splitLines [] = [[]]"
| "splitLines (c # cs) =
     (if c = CHR 0x0A then [] # splitLines cs
      else (c # hd (splitLines cs)) # tl (splitLines cs))"

fun joinLines :: "string list \<Rightarrow> string" where
  "joinLines [] = []"
| "joinLines [l] = l"
| "joinLines (l # m # ls) = l @ CHR 0x0A # joinLines (m # ls)"

text \<open>
  Modelled from the spec: \<open>diff3Merge\<close> is imported from the package \<open>node-diff3\<close>,
  which is not repository code. The spec (4.3, 9) describes it as the classic
  diff3-style line merge: regions that one side alone changed against the base are
  taken from that side, regions the sides changed alike are taken once, and regions
  both sides changed are conflict regions. The definitions below are that algorithm
  in the form the package gives it: a longest common subsequence of the base with
  each side (\<open>LCS\<close>, the candidate-list method of Hunt and McIlroy), the hunks between
  its matches (\<open>diffIndices\<close>), the hunks of both sides ordered by their start in the
  base and grouped into regions, where hunks whose base ranges overlap or touch
  share a region (\<open>diff3MergeRegions\<close>), and the regions collected into runs of
  merged lines and conflicts (\<open>diff3Merge\<close>, with false conflicts excluded, its
  default).
\<close>

datatype candidate =
  Candidate (buffer1index: int) (buffer2index: int) (chain: "candidate option")

definition NULLRESULT :: candidate where
  "NULLRESULT = Candidate (-1) (-1) None"

text \<open>The positions of an item in the second buffer, ascending.\<close>

definition equivalenceClass :: "'a list \<Rightarrow> 'a \<Rightarrow> int list" where
  "equivalenceClass buffer2 item =
     map int (filter (\<lambda>j. buffer2 ! j = item) [0 ..< length buffer2])"

text \<open>
  The search \<open>for (s = r; s < candidates.length; s++) if (...) break\<close>: the first
  slot from \<open>r\<close> whose candidate ends before \<open>j\<close> while the next one ends after it.
\<close>

function findSlot :: "int \<Rightarrow> candidate list \<Rightarrow> nat \<Rightarrow> nat" where
  "findSlot j candidates s =
     (if s < length candidates then
        if buffer2index (candidates ! s) < j \<and>
           (s = length candidates - 1 \<or> buffer2index (candidates ! (s + 1)) > j)
        then s else findSlot j candidates (s + 1)
      else s)"
  by pat_completeness auto
termination
  by (relation "measure (\<lambda>(j, candidates, s). length candidates - s)") auto

declare findSlot.simps [simp del]

text \<open>
  The assignment \<open>candidates[r] = c\<close>; the index is never beyond the length, where it
  appends.
\<close>

definition setAt :: "'a list \<Rightarrow> nat \<Rightarrow> 'a \<Rightarrow> 'a list" where
  "setAt xs r c = (if r < length xs then xs[r := c] else xs @ [c])"

text \<open>The loop over the positions \<open>j\<close> of the item of row \<open>i\<close>, with its \<open>break\<close>.\<close>

fun lcsScan ::
  "int \<Rightarrow> int list \<Rightarrow> nat \<Rightarrow> candidate \<Rightarrow> candidate list \<Rightarrow> nat \<times> candidate \<times> candidate list" where
  "lcsScan i [] r c candidates = (r, c, candidates)"
| "lcsScan i (j # js) r c candidates =
     (let s = findSlot j candidates r
      in if s < length candidates then
           let newCandidate = Candidate i j (Some (candidates ! s));
               candidates' = setAt candidates r c;
               r' = s + 1
           in if r' = length candidates' then (r', newCandidate, candidates')
              else lcsScan i js r' newCandidate candidates'
         else lcsScan i js r c candidates)"

definition lcsRow :: "'a list \<Rightarrow> candidate list \<Rightarrow> int \<times> 'a \<Rightarrow> candidate list" where
  "lcsRow buffer2 candidates row =
     (case row of (i, item) \<Rightarrow>
        case lcsScan i (equivalenceClass buffer2 item) 0 (candidates ! 0) candidates of
          (r, c, candidates') \<Rightarrow> setAt candidates' r c)"

definition LCS :: "'a list \<Rightarrow> 'a list \<Rightarrow> candidate" where
  "LCS buffer1 buffer2 =
     last (foldl (lcsRow buffer2) [NULLRESULT] (zip (map int [0 ..< length buffer1]) buffer1))"

record 'a diffHunk =
  buffer1 :: "int \<times> int"
  buffer1Content :: "'a list"
  buffer2 :: "int \<times> int"
  buffer2Content :: "'a list"

text \<open>
  The walk from the last candidate along \<open>chain\<close> to \<open>null\<close>; the hunks come out last
  first and \<open>diffIndices\<close> reverses them.
\<close>

fun diffWalk :: "'a list \<Rightarrow> 'a list \<Rightarrow> int \<Rightarrow> int \<Rightarrow> candidate option \<Rightarrow> 'a diffHunk list" where
  "diffWalk b1 b2 tail1 tail2 None = []"
| "diffWalk b1 b2 tail1 tail2 (Some (Candidate i j ch)) =
     (let mismatchLength1 = tail1 - i - 1;
          mismatchLength2 = tail2 - j - 1
      in (if mismatchLength1 \<noteq> 0 \<or> mismatchLength2 \<noteq> 0 then
            [\<lparr>buffer1 = (i + 1, mismatchLength1),
              buffer1Content = slice b1 (i + 1) (i + 1 + mismatchLength1),
              buffer2 = (j + 1, mismatchLength2),
              buffer2Content = slice b2 (j + 1) (j + 1 + mismatchLength2)\<rparr>]
          else []) @ diffWalk b1 b2 i j ch)"

definition diffIndices :: "'a list \<Rightarrow> 'a list \<Rightarrow> 'a diffHunk list" where
  "diffIndices b1 b2 =
     rev (diffWalk b1 b2 (int (length b1)) (int (length b2)) (Some (LCS b1 b2)))"

datatype side = SideA | SideB

record hunk =
  ab :: side
  oStart :: int
  oLength :: int
  abStart :: int
  abLength :: int

definition addHunk :: "side \<Rightarrow> 'a diffHunk \<Rightarrow> hunk" where
  "addHunk s h =
     \<lparr>ab = s, oStart = fst (buffer1 h), oLength = snd (buffer1 h),
      abStart = fst (buffer2 h), abLength = snd (buffer2 h)\<rparr>"

datatype 'a region =
  Stable (buffer: "side option") (bufferStart: int) (bufferLength: int) (bufferContent: "'a list")
| Unstable (aStart: int) (aLength: int) (aContent: "'a list")
    (oStartR: int) (oLengthR: int) (oContent: "'a list")
    (bStart: int) (bLength: int) (bContent: "'a list")

text \<open>\<open>advanceTo\<close>: the stable region of the base up to \<open>endOffset\<close>, if not empty.\<close>

definition advanceTo ::
  "'a list \<Rightarrow> int \<Rightarrow> 'a region list \<times> int \<Rightarrow> 'a region list \<times> int" where
  "advanceTo o' endOffset st =
     (case st of (results, currOffset) \<Rightarrow>
        if endOffset > currOffset then
          (results @ [Stable None currOffset (endOffset - currOffset)
                        (slice o' currOffset endOffset)], endOffset)
        else (results, currOffset))"

text \<open>The inner loop that pulls the next hunks into the region while they start within it.\<close>

fun pullHunks :: "int \<Rightarrow> hunk list \<Rightarrow> hunk list \<Rightarrow> int \<times> hunk list \<times> hunk list" where
  "pullHunks regionEnd regionHunks [] = (regionEnd, regionHunks, [])"
| "pullHunks regionEnd regionHunks (nextHunk # hunks) =
     (if oStart nextHunk > regionEnd then (regionEnd, regionHunks, nextHunk # hunks)
      else pullHunks (max regionEnd (oStart nextHunk + oLength nextHunk))
             (regionHunks @ [nextHunk]) hunks)"

text \<open>The bounds \<open>[abStart, abEnd, oStart, oEnd]\<close> of one side over the hunks of a region.\<close>

type_synonym bounds = "int \<times> int \<times> int \<times> int"

fun widen :: "bounds \<Rightarrow> hunk \<Rightarrow> bounds" where
  "widen (b0, b1, b2, b3) h =
     (min (abStart h) b0, max (abStart h + abLength h) b1,
      min (oStart h) b2, max (oStart h + oLength h) b3)"

definition regionBounds :: "side \<Rightarrow> int \<Rightarrow> int \<Rightarrow> hunk list \<Rightarrow> bounds" where
  "regionBounds s abLen oLen regionHunks =
     foldl widen (abLen, -1, oLen, -1) (filter (\<lambda>h. ab h = s) regionHunks)"

definition conflictRegion ::
  "'a list \<Rightarrow> 'a list \<Rightarrow> 'a list \<Rightarrow> int \<Rightarrow> int \<Rightarrow> hunk list \<Rightarrow> 'a region" where
  "conflictRegion a o' b regionStart regionEnd regionHunks =
     (case regionBounds SideA (int (length a)) (int (length o')) regionHunks of
        (a0, a1, a2, a3) \<Rightarrow>
      case regionBounds SideB (int (length b)) (int (length o')) regionHunks of
        (b0, b1, b2, b3) \<Rightarrow>
        let aStart = a0 + (regionStart - a2);
            aEnd = a1 + (regionEnd - a3);
            bStart = b0 + (regionStart - b2);
            bEnd = b1 + (regionEnd - b3)
        in Unstable aStart (aEnd - aStart) (slice a aStart aEnd)
             regionStart (regionEnd - regionStart) (slice o' regionStart regionEnd)
             bStart (bEnd - bStart) (slice b bStart bEnd))"

function regionLoop ::
  "'a list \<Rightarrow> 'a list \<Rightarrow> 'a list \<Rightarrow> hunk list \<Rightarrow> 'a region list \<times> int \<Rightarrow> 'a region list \<times> int" where
  "regionLoop a o' b [] st = st"
| "regionLoop a o' b (hunk # hunks) st =
     (let regionStart = oStart hunk in
      case pullHunks (oStart hunk + oLength hunk) [hunk] hunks of
        (regionEnd, regionHunks, rest) \<Rightarrow>
      case advanceTo o' regionStart st of
        (results, currOffset) \<Rightarrow>
        regionLoop a o' b rest
          (if length regionHunks = 1 then
             (if abLength hunk > 0 then
                results @ [Stable (Some (ab hunk)) (abStart hunk) (abLength hunk)
                  (slice (if ab hunk = SideA then a else b) (abStart hunk)
                     (abStart hunk + abLength hunk))]
              else results)
           else results @ [conflictRegion a o' b regionStart regionEnd regionHunks],
           regionEnd))"
  by pat_completeness auto
termination
proof -
  have pulled: "pullHunks e rs hs = (e', rs', rest) \<Longrightarrow> length rest \<le> length hs"
    for e e' :: int and rs rs' hs rest :: "hunk list"
    by (induction e rs hs rule: pullHunks.induct) (auto split: if_splits)
  show ?thesis
    by (relation "measure (\<lambda>(a, o', b, hunks, st). length hunks)")
       (auto dest!: sym [THEN pulled] simp: less_Suc_eq_le)
qed

declare regionLoop.simps [simp del]

definition diff3MergeRegions :: "'a list \<Rightarrow> 'a list \<Rightarrow> 'a list \<Rightarrow> 'a region list" where
  "diff3MergeRegions a o' b =
     (let hunks = sort_key oStart
            (map (addHunk SideA) (diffIndices o' a) @ map (addHunk SideB) (diffIndices o' b))
      in fst (advanceTo o' (int (length o')) (regionLoop a o' b hunks ([], 0))))"

datatype 'a mergeBlock =
  Ok "'a list"
| Conflict "'a list" int "'a list" int "'a list" int

definition flushOk :: "'a mergeBlock list \<times> 'a list \<Rightarrow> 'a mergeBlock list \<times> 'a list" where
  "flushOk st =
     (case st of (results, okBuffer) \<Rightarrow>
        (if okBuffer \<noteq> [] then results @ [Ok okBuffer] else results, []))"

text \<open>\<open>isFalseConflict\<close>: both sides have the same lines.\<close>

definition isFalseConflict :: "'a list \<Rightarrow> 'a list \<Rightarrow> bool" where
  "isFalseConflict a b = (length a = length b \<and> list_all2 (=) a b)"

fun mergeRegion ::
  "'a mergeBlock list \<times> 'a list \<Rightarrow> 'a region \<Rightarrow> 'a mergeBlock list \<times> 'a list" where
  "mergeRegion (results, okBuffer) (Stable buf st len content) = (results, okBuffer @ content)"
| "mergeRegion (results, okBuffer) (Unstable aS aL aC oS oL oC bS bL bC) =
     (if isFalseConflict aC bC then (results, okBuffer @ aC)
      else case flushOk (results, okBuffer) of
        (results', okBuffer') \<Rightarrow> (results' @ [Conflict aC aS oC oS bC bS], okBuffer'))"

definition diff3Merge :: "'a list \<Rightarrow> 'a list \<Rightarrow> 'a list \<Rightarrow> 'a mergeBlock list" where
  "diff3Merge a o' b = fst (flushOk (foldl mergeRegion ([], []) (diff3MergeRegions a o' b)))"

text \<open>
  \<open>threeWayMerge\<close> (merge.ts): the optional \<open>labels\<close> object with its optional fields;
  \<open>labels?.ours || "ours (your changes)"\<close> falls back on the default when the object or
  the field is missing and when the label is the empty string.
\<close>

record MergeLabels =
  ours :: "string option"
  theirs :: "string option"

record MergeResult =
  success :: bool
  content :: string
  conflictCount :: nat

definition oursLabel :: "MergeLabels option \<Rightarrow> string" where
  "oursLabel labels =
     (case labels of
        None \<Rightarrow> ''ours (your changes)''
      | Some l \<Rightarrow> (case ours l of
          None \<Rightarrow> ''ours (your changes)''
        | Some s \<Rightarrow> if s = [] then ''ours (your changes)'' else s))"

definition theirsLabel :: "MergeLabels option \<Rightarrow> string" where
  "theirsLabel labels =
     (case labels of
        None \<Rightarrow> ''theirs (upstream)''
      | Some l \<Rightarrow> (case theirs l of
          None \<Rightarrow> ''theirs (upstream)''
        | Some s \<Rightarrow> if s = [] then ''theirs (upstream)'' else s))"

text \<open>The body of the loop over the merge results: the count and the lines so far.\<close>

fun mergeStep ::
  "MergeLabels option \<Rightarrow> nat \<times> string list \<Rightarrow> string mergeBlock \<Rightarrow> nat \<times> string list" where
  "mergeStep labels (conflicts, mergedLines) (Ok lines) = (conflicts, mergedLines @ lines)"
| "mergeStep labels (conflicts, mergedLines) (Conflict ca ai co oi cb bi) =
     (conflicts + 1,
      mergedLines @ [''<<<<<<< '' @ oursLabel labels] @ ca @ [''=======''] @ cb @
        [''>>>>>>> '' @ theirsLabel labels])"

definition threeWayMerge ::
  "string \<Rightarrow> string \<Rightarrow> string \<Rightarrow> MergeLabels option \<Rightarrow> MergeResult" where
  "threeWayMerge base ours' theirs' labels =
     (let baseLines = splitLines base;
          oursLines = splitLines ours';
          theirsLines = splitLines theirs';
          mergeResults = diff3Merge oursLines baseLines theirsLines
      in case foldl (mergeStep labels) (0, []) mergeResults of
           (conflicts, mergedLines) \<Rightarrow>
             \<lparr>success = (conflicts = 0), content = joinLines mergedLines,
              conflictCount = conflicts\<rparr>)"

text \<open>
  \<open>countConflicts\<close>: the number of matches of \<open>/<<<<<<</g\<close>, found from the left, each
  search going on after the match before. \<open>countMatches\<close> is that count for any
  pattern that is not empty.
\<close>

fun countMatches :: "string \<Rightarrow> string \<Rightarrow> nat" where
  "countMatches pat [] = 0"
| "countMatches pat (c # cs) =
     (if take (length pat) (c # cs) = pat
      then Suc (countMatches pat (drop (length pat - 1) cs))
      else countMatches pat cs)"

definition countConflicts :: "string \<Rightarrow> nat" where
  "countConflicts s = countMatches ''<<<<<<<'' s"

definition hasConflictMarkers :: "string \<Rightarrow> bool" where
  "hasConflictMarkers s =
     (includesStr s ''<<<<<<<'' \<and> includesStr s ''======='' \<and> includesStr s ''>>>>>>>'')"

text \<open>
  The conflict region in the words of the spec (4.3, step 3), for the comparison with
  what \<open>threeWayMerge\<close> emits: the ours marker with its label, the ours lines, the
  separator, the theirs lines, the theirs marker with its label. \<open>specBlockLines\<close> are
  the lines of one merge result: merged lines verbatim, a conflict as such a region.
\<close>

definition specConflictRegion :: "string \<Rightarrow> string \<Rightarrow> string list \<Rightarrow> string list \<Rightarrow> string list" where
  "specConflictRegion oursLabel' theirsLabel' oursLines theirsLines =
     [''<<<<<<< '' @ oursLabel'] @ oursLines @ [''=======''] @ theirsLines @
     [''>>>>>>> '' @ theirsLabel']"

fun specBlockLines :: "string \<Rightarrow> string \<Rightarrow> string mergeBlock \<Rightarrow> string list" where
  "specBlockLines oursLabel' theirsLabel' (Ok lines) = lines"
| "specBlockLines oursLabel' theirsLabel' (Conflict ca ai co oi cb bi) =
     specConflictRegion oursLabel' theirsLabel' ca cb"

fun isConflict :: "'a mergeBlock \<Rightarrow> bool" where
  "isConflict (Ok lines) = False"
| "isConflict (Conflict ca ai co oi cb bi) = True"

text \<open>
  Notions for the proofs about the line merge. A candidate is a valid chain of matches
  between two buffers when every link pairs equal items at positions inside the
  buffers, the positions grow along the chain in both buffers, and the chain ends in
  \<open>NULLRESULT\<close>. \<open>diag n\<close> is the chain that matches the first \<open>n\<close> positions of a
  buffer with themselves.
\<close>

fun validChain :: "'a list \<Rightarrow> 'a list \<Rightarrow> candidate \<Rightarrow> bool" where
  "validChain b1 b2 (Candidate i j None) = (i = -1 \<and> j = -1)"
| "validChain b1 b2 (Candidate i j (Some c)) =
     (0 \<le> i \<and> i < int (length b1) \<and> 0 \<le> j \<and> j < int (length b2) \<and>
      b1 ! nat i = b2 ! nat j \<and> buffer1index c < i \<and> buffer2index c < j \<and>
      validChain b1 b2 c)"

fun diag :: "nat \<Rightarrow> candidate" where
  "diag 0 = NULLRESULT"
| "diag (Suc k) = Candidate (int k) (int k) (Some (diag k))"

text \<open>
  The lines that \<open>diff3Merge\<close> takes from a region it does not report as a conflict, and
  the regions of that kind: stable ones, and unstable ones whose two sides agree.
\<close>

fun okLines :: "'a region \<Rightarrow> 'a list" where
  "okLines (Stable buf st len ls) = ls"
| "okLines (Unstable aS aL aC oS oL oC bS bL bC) = aC"

fun benign :: "'a region \<Rightarrow> bool" where
  "benign (Stable buf st len ls) = True"
| "benign (Unstable aS aL aC oS oL oC bS bL bC) = isFalseConflict aC bC"

section \<open>Version ranges: properties\<close>

lemma findIndexFrom_absent:
  "(findIndexFrom k p xs = -1) = (\<forall>x \<in> set xs. \<not> p x)" if "0 \<le> k"
  using that by (induction xs arbitrary: k) auto

lemma findIndexFrom_range:
  "findIndexFrom k p xs \<noteq> -1 \<Longrightarrow> 0 \<le> k \<Longrightarrow>
     k \<le> findIndexFrom k p xs \<and> findIndexFrom k p xs < k + int (length xs)"
proof (induction xs arbitrary: k)
  case Nil
  then show ?case by simp
next
  case (Cons x xs)
  show ?case
  proof (cases "p x")
    case True
    then show ?thesis by simp
  next
    case False
    with Cons.prems have "findIndexFrom (k + 1) p xs \<noteq> -1" by simp
    from Cons.IH [OF this] Cons.prems False show ?thesis by simp
  qed
qed

lemma findIndexFrom_first:
  "findIndexFrom k p xs \<noteq> -1 \<Longrightarrow> 0 \<le> k \<Longrightarrow>
     p (xs ! nat (findIndexFrom k p xs - k)) \<and>
     (\<forall>i < nat (findIndexFrom k p xs - k). \<not> p (xs ! i))"
proof (induction xs arbitrary: k)
  case Nil
  then show ?case by simp
next
  case (Cons x xs)
  show ?case
  proof (cases "p x")
    case True
    then show ?thesis by simp
  next
    case False
    with Cons.prems have ne: "findIndexFrom (k + 1) p xs \<noteq> -1" by simp
    have k1: "0 \<le> k + 1" using Cons.prems by simp
    from findIndexFrom_range [OF ne k1]
    have ge: "k + 1 \<le> findIndexFrom (k + 1) p xs" by simp
    then have eq: "nat (findIndexFrom (k + 1) p xs - k)
        = Suc (nat (findIndexFrom (k + 1) p xs - (k + 1)))" by simp
    from Cons.IH [OF ne k1] have
      ih1: "p (xs ! nat (findIndexFrom (k + 1) p xs - (k + 1)))" and
      ih2: "\<forall>i < nat (findIndexFrom (k + 1) p xs - (k + 1)). \<not> p (xs ! i)"
      by simp_all
    show ?thesis
    proof (intro conjI allI impI)
      show "p ((x # xs) ! nat (findIndexFrom k p (x # xs) - k))"
        using False eq ih1 by simp
    next
      fix i assume "i < nat (findIndexFrom k p (x # xs) - k)"
      then have "i < Suc (nat (findIndexFrom (k + 1) p xs - (k + 1)))"
        using False eq by simp
      then show "\<not> p ((x # xs) ! i)"
        using False ih2 by (cases i) simp_all
    qed
  qed
qed

lemma slice_in_range:
  "0 \<le> s \<Longrightarrow> s \<le> e \<Longrightarrow> e \<le> int (length xs) \<Longrightarrow>
     slice xs s e = map (\<lambda>k. xs ! k) [nat s ..< nat e]"
proof -
  assume a: "0 \<le> s" "s \<le> e" "e \<le> int (length xs)"
  then have "slice xs s e = take (nat (e - s)) (drop (nat s) xs)"
    by (simp add: slice_def Let_def min_def)
  also have "\<dots> = map (\<lambda>k. xs ! k) [nat s ..< nat e]"
  proof (rule nth_equalityI)
    show "length (take (nat (e - s)) (drop (nat s) xs)) = length (map ((!) xs) [nat s..<nat e])"
      using a by auto
  next
    fix i assume "i < length (take (nat (e - s)) (drop (nat s) xs))"
    then show "take (nat (e - s)) (drop (nat s) xs) ! i = map ((!) xs) [nat s..<nat e] ! i"
      using a by auto
  qed
  finally show ?thesis .
qed

text \<open>
  C2. \<open>filterEntriesBetweenVersions\<close> looks up the first entry with version \<open>a\<close> and the
  first with version \<open>b\<close>. If one of the versions is on no entry the result is empty.
  Otherwise, with \<open>i\<close> and \<open>j\<close> the two indices (each in range, each the first entry
  carrying its version), the result is exactly the entries at the indices
  \<open>max i j, ..., min i j\<close> in that order, which is the inclusive range reversed. The
  result for \<open>(a, b)\<close> equals the one for \<open>(b, a)\<close>, and on the versions
  2.0.0, 1.1.0, 1.0.0 (newest first) the range from 1.0.0 to 2.0.0 is
  1.0.0, 1.1.0, 2.0.0.
\<close>

theorem C2_entriesBetween:
  fixes entries :: "ChangelogEntry list"
  shows "(let i = findIndex (\<lambda>e. version e = a) entries;
              j = findIndex (\<lambda>e. version e = b) entries
          in (a \<notin> version ` set entries \<or> b \<notin> version ` set entries \<longrightarrow>
                filterEntriesBetweenVersions entries a b = []) \<and>
             (a \<in> version ` set entries \<and> b \<in> version ` set entries \<longrightarrow>
                0 \<le> i \<and> i < int (length entries) \<and> version (entries ! nat i) = a \<and>
                (\<forall>k < nat i. version (entries ! k) \<noteq> a) \<and>
                0 \<le> j \<and> j < int (length entries) \<and> version (entries ! nat j) = b \<and>
                (\<forall>k < nat j. version (entries ! k) \<noteq> b) \<and>
                filterEntriesBetweenVersions entries a b =
                  rev (map (\<lambda>k. entries ! k) [nat (min i j) ..< Suc (nat (max i j))]))) \<and>
         filterEntriesBetweenVersions entries a b = filterEntriesBetweenVersions entries b a \<and>
         map version (filterEntriesBetweenVersions
            [\<lparr>version = ''2.0.0'', date = d2, changes = c2, breaking = b2\<rparr>,
             \<lparr>version = ''1.1.0'', date = d1, changes = c1, breaking = b1\<rparr>,
             \<lparr>version = ''1.0.0'', date = d0, changes = c0, breaking = b0\<rparr>]
            ''1.0.0'' ''2.0.0'') = [''1.0.0'', ''1.1.0'', ''2.0.0'']"
proof -
  define i where "i = findIndex (\<lambda>e. version e = a) entries"
  define j where "j = findIndex (\<lambda>e. version e = b) entries"
  have absent: "(findIndex (\<lambda>e. version e = v) entries = -1) = (v \<notin> version ` set entries)" for v
    unfolding findIndex_def by (subst findIndexFrom_absent) auto
  have none: "a \<notin> version ` set entries \<or> b \<notin> version ` set entries \<longrightarrow>
            filterEntriesBetweenVersions entries a b = []"
    using absent [of a] absent [of b]
    by (auto simp: filterEntriesBetweenVersions_def Let_def)
  have both: "a \<in> version ` set entries \<and> b \<in> version ` set entries \<longrightarrow>
            0 \<le> i \<and> i < int (length entries) \<and> version (entries ! nat i) = a \<and>
            (\<forall>k < nat i. version (entries ! k) \<noteq> a) \<and>
            0 \<le> j \<and> j < int (length entries) \<and> version (entries ! nat j) = b \<and>
            (\<forall>k < nat j. version (entries ! k) \<noteq> b) \<and>
            filterEntriesBetweenVersions entries a b =
              rev (map (\<lambda>k. entries ! k) [nat (min i j) ..< Suc (nat (max i j))])"
  proof
    assume "a \<in> version ` set entries \<and> b \<in> version ` set entries"
    then have ni: "i \<noteq> -1" and nj: "j \<noteq> -1"
      using absent [of a] absent [of b] by (simp_all add: i_def j_def)
    have ri: "0 \<le> i \<and> i < int (length entries)"
      using findIndexFrom_range [of 0 "\<lambda>e. version e = a" entries] ni
      by (simp add: i_def findIndex_def)
    have rj: "0 \<le> j \<and> j < int (length entries)"
      using findIndexFrom_range [of 0 "\<lambda>e. version e = b" entries] nj
      by (simp add: j_def findIndex_def)
    have fi: "version (entries ! nat i) = a \<and> (\<forall>k < nat i. version (entries ! k) \<noteq> a)"
      using findIndexFrom_first [of 0 "\<lambda>e. version e = a" entries] ni
      by (simp add: i_def findIndex_def)
    have fj: "version (entries ! nat j) = b \<and> (\<forall>k < nat j. version (entries ! k) \<noteq> b)"
      using findIndexFrom_first [of 0 "\<lambda>e. version e = b" entries] nj
      by (simp add: j_def findIndex_def)
    have "filterEntriesBetweenVersions entries a b
        = rev (slice entries (min i j) (max i j + 1))"
      using ni nj by (simp add: filterEntriesBetweenVersions_def Let_def i_def j_def)
    also have "slice entries (min i j) (max i j + 1)
        = map (\<lambda>k. entries ! k) [nat (min i j) ..< nat (max i j + 1)]"
      using ri rj by (intro slice_in_range) auto
    also have "nat (max i j + 1) = Suc (nat (max i j))"
      using ri rj by auto
    finally show "0 \<le> i \<and> i < int (length entries) \<and> version (entries ! nat i) = a \<and>
            (\<forall>k < nat i. version (entries ! k) \<noteq> a) \<and>
            0 \<le> j \<and> j < int (length entries) \<and> version (entries ! nat j) = b \<and>
            (\<forall>k < nat j. version (entries ! k) \<noteq> b) \<and>
            filterEntriesBetweenVersions entries a b =
              rev (map (\<lambda>k. entries ! k) [nat (min i j) ..< Suc (nat (max i j))])"
      using ri rj fi fj by simp
  qed
  have sym: "filterEntriesBetweenVersions entries a b = filterEntriesBetweenVersions entries b a"
    by (simp add: filterEntriesBetweenVersions_def Let_def min.commute max.commute disj_commute)
  have scen: "map version (filterEntriesBetweenVersions
            [\<lparr>version = ''2.0.0'', date = d2, changes = c2, breaking = b2\<rparr>,
             \<lparr>version = ''1.1.0'', date = d1, changes = c1, breaking = b1\<rparr>,
             \<lparr>version = ''1.0.0'', date = d0, changes = c0, breaking = b0\<rparr>]
            ''1.0.0'' ''2.0.0'') = [''1.0.0'', ''1.1.0'', ''2.0.0'']"
    by (simp add: filterEntriesBetweenVersions_def findIndex_def slice_def Let_def)
  from none both sym scen show ?thesis
    unfolding Let_def i_def j_def by blast
qed

theorem C2_entriesBetween_witness:
  "filterEntriesBetweenVersions
     [\<lparr>version = ''2.0.0'', date = ''2024-03-01T00:00:00Z'',
        changes = [\<lparr>type = Removed, description = ''drop legacy prop''\<rparr>], breaking = Some True\<rparr>,
      \<lparr>version = ''1.1.0'', date = ''2024-02-01T00:00:00Z'',
        changes = [\<lparr>type = Added, description = ''size variant''\<rparr>], breaking = None\<rparr>,
      \<lparr>version = ''1.0.0'', date = ''2024-01-01T00:00:00Z'',
        changes = [\<lparr>type = Added, description = ''initial release''\<rparr>], breaking = None\<rparr>]
     ''1.1.0'' ''2.0.0''
   = rev [\<lparr>version = ''2.0.0'', date = ''2024-03-01T00:00:00Z'',
        changes = [\<lparr>type = Removed, description = ''drop legacy prop''\<rparr>], breaking = Some True\<rparr>,
      \<lparr>version = ''1.1.0'', date = ''2024-02-01T00:00:00Z'',
        changes = [\<lparr>type = Added, description = ''size variant''\<rparr>], breaking = None\<rparr>] \<and>
   filterEntriesBetweenVersions
     [\<lparr>version = ''1.0.0'', date = ''2024-01-01T00:00:00Z'',
        changes = [\<lparr>type = Added, description = ''initial release''\<rparr>], breaking = None\<rparr>]
     ''9.9.9'' ''1.0.0'' = []"
proof -
  let ?e2 = "\<lparr>version = ''2.0.0'', date = ''2024-03-01T00:00:00Z'',
        changes = [\<lparr>type = Removed, description = ''drop legacy prop''\<rparr>], breaking = Some True\<rparr>"
  let ?e1 = "\<lparr>version = ''1.1.0'', date = ''2024-02-01T00:00:00Z'',
        changes = [\<lparr>type = Added, description = ''size variant''\<rparr>], breaking = None\<rparr>"
  let ?e0 = "\<lparr>version = ''1.0.0'', date = ''2024-01-01T00:00:00Z'',
        changes = [\<lparr>type = Added, description = ''initial release''\<rparr>], breaking = None\<rparr>"
  have i: "findIndex (\<lambda>e. version e = ''1.1.0'') [?e2, ?e1, ?e0] = 1"
    and j: "findIndex (\<lambda>e. version e = ''2.0.0'') [?e2, ?e1, ?e0] = 0"
    by (simp_all add: findIndex_def)
  have r: "[nat (min 1 0) ..< Suc (nat (max (1::int) 0))] = [0, 1]"
    by (simp add: upt_rec)
  have "filterEntriesBetweenVersions [?e2, ?e1, ?e0] ''1.1.0'' ''2.0.0'' = rev [?e2, ?e1]"
    using C2_entriesBetween [of "''1.1.0''" "[?e2, ?e1, ?e0]" "''2.0.0''"]
    unfolding Let_def i j r by simp
  moreover have "filterEntriesBetweenVersions [?e0] ''9.9.9'' ''1.0.0'' = []"
    using C2_entriesBetween [of "''9.9.9''" "[?e0]" "''1.0.0''"]
    unfolding Let_def by simp
  ultimately show ?thesis by simp
qed

section \<open>Lock file: properties\<close>

text \<open>
  C8. \<open>updateComponentEntry\<close> returns a lock file whose entry for the given name is the
  given record; the format version, the schema reference and the entry of every other
  name are those of the input. \<open>removeComponentEntry\<close> returns a lock file with no entry
  for the name and everything else as in the input; when the name had no entry the
  components, and the whole lock file, equal the input. Both are functions of their
  arguments: the input value is the same before and after.
\<close>

theorem C8_upsert_remove_frame:
  "components (updateComponentEntry lockFile name entry) name = Some entry \<and>
   lockVersion (updateComponentEntry lockFile name entry) = lockVersion lockFile \<and>
   schema (updateComponentEntry lockFile name entry) = schema lockFile \<and>
   (\<forall>other. other \<noteq> name \<longrightarrow>
      components (updateComponentEntry lockFile name entry) other = components lockFile other) \<and>
   components (removeComponentEntry lockFile name) name = None \<and>
   lockVersion (removeComponentEntry lockFile name) = lockVersion lockFile \<and>
   schema (removeComponentEntry lockFile name) = schema lockFile \<and>
   (\<forall>other. other \<noteq> name \<longrightarrow>
      components (removeComponentEntry lockFile name) other = components lockFile other) \<and>
   (components lockFile name = None \<longrightarrow>
      components (removeComponentEntry lockFile name) = components lockFile \<and>
      removeComponentEntry lockFile name = lockFile)"
proof -
  have "components lockFile name = None \<Longrightarrow> (components lockFile)(name := None) = components lockFile"
    by (rule ext) simp
  then show ?thesis
    by (simp add: updateComponentEntry_def removeComponentEntry_def)
qed

theorem C8_upsert_remove_frame_witness:
  "components (updateComponentEntry
      \<lparr>schema = None, lockVersion = ''1.0'',
        components = [''button'' \<mapsto> \<lparr>installedVersion = ''1.0.0'',
          installedAt = ''2024-01-01T00:00:00Z'', checksum = ''sha256:00'', registryUrl = None\<rparr>]\<rparr>
      ''card''
      \<lparr>installedVersion = ''2.1.0'', installedAt = ''2024-05-01T00:00:00Z'',
        checksum = ''sha256:11'', registryUrl = None\<rparr>) ''button''
     = Some \<lparr>installedVersion = ''1.0.0'',
          installedAt = ''2024-01-01T00:00:00Z'', checksum = ''sha256:00'', registryUrl = None\<rparr> \<and>
   components (removeComponentEntry
      \<lparr>schema = None, lockVersion = ''1.0'',
        components = [''button'' \<mapsto> \<lparr>installedVersion = ''1.0.0'',
          installedAt = ''2024-01-01T00:00:00Z'', checksum = ''sha256:00'', registryUrl = None\<rparr>]\<rparr>
      ''card'') ''button''
     = Some \<lparr>installedVersion = ''1.0.0'',
          installedAt = ''2024-01-01T00:00:00Z'', checksum = ''sha256:00'', registryUrl = None\<rparr> \<and>
   removeComponentEntry
      \<lparr>schema = None, lockVersion = ''1.0'',
        components = [''button'' \<mapsto> \<lparr>installedVersion = ''1.0.0'',
          installedAt = ''2024-01-01T00:00:00Z'', checksum = ''sha256:00'', registryUrl = None\<rparr>]\<rparr>
      ''card''
     = \<lparr>schema = None, lockVersion = ''1.0'',
        components = [''button'' \<mapsto> \<lparr>installedVersion = ''1.0.0'',
          installedAt = ''2024-01-01T00:00:00Z'', checksum = ''sha256:00'', registryUrl = None\<rparr>]\<rparr>"
proof -
  let ?b = "\<lparr>installedVersion = ''1.0.0'',
          installedAt = ''2024-01-01T00:00:00Z'', checksum = ''sha256:00'', registryUrl = None\<rparr>"
  let ?c = "\<lparr>installedVersion = ''2.1.0'', installedAt = ''2024-05-01T00:00:00Z'',
        checksum = ''sha256:11'', registryUrl = None\<rparr>"
  let ?l = "\<lparr>schema = None, lockVersion = ''1.0'', components = [''button'' \<mapsto> ?b]\<rparr>"
  have ne: "''button'' \<noteq> ''card''" by simp
  have absent: "components ?l ''card'' = None" by simp
  have look: "components ?l ''button'' = Some ?b" by simp
  from C8_upsert_remove_frame [of ?l "''card''" ?c] ne absent look
  show ?thesis by metis
qed

text \<open>
  C10. \<open>isComponentTracked\<close> holds exactly when \<open>getComponentEntry\<close> returns something
  other than \<open>null\<close>: a name that is an own key reads as its entry, an object and so
  truthy; a name found only on the prototype chain is in the object for \<open>in\<close> and
  reads as a truthy inherited member; any other name is not in the object and reads
  as \<open>undefined\<close>, which the fallback turns into \<open>null\<close>.
\<close>

theorem C10_tracked_iff_entry:
  "isComponentTracked lockFile name = (getComponentEntry lockFile name \<noteq> None)"
  by (cases "components lockFile name")
     (simp_all add: isComponentTracked_def getComponentEntry_def hasProperty_def
        getProperty_def Let_def)

theorem C10_tracked_iff_entry_witness:
  "isComponentTracked
      \<lparr>schema = None, lockVersion = ''1.0'',
        components = [''button'' \<mapsto> \<lparr>installedVersion = ''1.0.0'',
          installedAt = ''2024-01-01T00:00:00Z'', checksum = ''sha256:00'', registryUrl = None\<rparr>]\<rparr>
      ''button'' \<and>
   getComponentEntry
      \<lparr>schema = None, lockVersion = ''1.0'',
        components = [''button'' \<mapsto> \<lparr>installedVersion = ''1.0.0'',
          installedAt = ''2024-01-01T00:00:00Z'', checksum = ''sha256:00'', registryUrl = None\<rparr>]\<rparr>
      ''card'' = None \<and>
   \<not> isComponentTracked
      \<lparr>schema = None, lockVersion = ''1.0'',
        components = [''button'' \<mapsto> \<lparr>installedVersion = ''1.0.0'',
          installedAt = ''2024-01-01T00:00:00Z'', checksum = ''sha256:00'', registryUrl = None\<rparr>]\<rparr>
      ''card''"
proof -
  let ?l = "\<lparr>schema = None, lockVersion = ''1.0'',
        components = [''button'' \<mapsto> \<lparr>installedVersion = ''1.0.0'',
          installedAt = ''2024-01-01T00:00:00Z'', checksum = ''sha256:00'', registryUrl = None\<rparr>]\<rparr>"
  have g1: "getComponentEntry ?l ''button'' \<noteq> None"
    by (simp add: getComponentEntry_def getProperty_def Let_def)
  have g2: "getComponentEntry ?l ''card'' = None"
    by (simp add: getComponentEntry_def getProperty_def objectPrototype_def Let_def)
  from C10_tracked_iff_entry [of ?l "''button''"] C10_tracked_iff_entry [of ?l "''card''"] g1 g2
  show ?thesis by simp
qed

section \<open>Content checksums: properties\<close>

lemma replaceCRLF_head:
  "replaceCRLF cs = CHR 0x0A # rest \<Longrightarrow>
     (\<exists>t. cs = CHR 0x0A # t) \<or> (\<exists>t. cs = CHR 0x0D # CHR 0x0A # t)"
  by (cases cs rule: replaceCRLF.cases) (auto split: if_splits)

lemma replaceCRLF_idem:
  "\<not> includesStr c [CHR 0x0D, CHR 0x0D, CHR 0x0A] \<Longrightarrow> replaceCRLF (replaceCRLF c) = replaceCRLF c"
proof (induction c rule: replaceCRLF.induct)
  case 1
  then show ?case by simp
next
  case (2 c)
  then show ?case by simp
next
  case (3 c d cs)
  show ?case
  proof (cases "c = CHR 0x0D \<and> d = CHR 0x0A")
    case True
    with 3 have "replaceCRLF (replaceCRLF cs) = replaceCRLF cs" by simp
    with True show ?thesis
      by (cases "replaceCRLF cs") simp_all
  next
    case False
    with 3 have ih: "replaceCRLF (replaceCRLF (d # cs)) = replaceCRLF (d # cs)" by simp
    show ?thesis
    proof (cases "replaceCRLF (d # cs)")
      case Nil
      with False show ?thesis by auto
    next
      case (Cons e es)
      have "\<not> (c = CHR 0x0D \<and> e = CHR 0x0A)"
      proof
        assume ce: "c = CHR 0x0D \<and> e = CHR 0x0A"
        with Cons replaceCRLF_head [of "d # cs" es]
        have "(\<exists>t. d # cs = CHR 0x0A # t) \<or> (\<exists>t. d # cs = CHR 0x0D # CHR 0x0A # t)" by simp
        with False ce have "\<exists>t. d # cs = CHR 0x0D # CHR 0x0A # t" by auto
        with ce 3(3) show False by auto
      qed
      with False Cons ih show ?thesis by auto
    qed
  qed
qed

lemma hexDigit_class: "n < 16 \<Longrightarrow> hexDigit n \<in> set ''abcdef0123456789''"
proof -
  assume "n < 16"
  have "list_all (\<lambda>k. hexDigit k \<in> set ''abcdef0123456789'') [0 ..< 16]"
    by (simp add: hexDigit_def upt_rec)
  with \<open>n < 16\<close> show ?thesis
    by (simp add: list_all_iff)
qed

lemma nibble_bound: "unat ((w :: word32) AND 15) < 16"
proof -
  have "unat (w AND 15) \<le> unat (15 :: word32)"
    by (rule word_and_le1 [THEN word_le_nat_alt [THEN iffD1]])
  then show ?thesis by simp
qed

lemma hex32_shape: "length (hex32 w) = 8 \<and> list_all (\<lambda>c. c \<in> set ''abcdef0123456789'') (hex32 w)"
  unfolding hex32_def using hexDigit_class [OF nibble_bound] by simp

lemma hexDigest_shape:
  "length (hexDigest s) = 64 \<and> list_all (\<lambda>c. c \<in> set ''abcdef0123456789'') (hexDigest s)"
proof (cases s rule: hexDigest.cases)
  case (1 a b c d e f g h)
  then show ?thesis
    using hex32_shape [of a] hex32_shape [of b] hex32_shape [of c] hex32_shape [of d]
      hex32_shape [of e] hex32_shape [of f] hex32_shape [of g] hex32_shape [of h]
    by simp
qed

text \<open>
  C9. For every content the checksum is the prefix \<open>sha256:\<close> followed by exactly 64
  characters, each a lowercase hexadecimal digit, and so it matches the pattern that
  validates the checksum field of a lock file entry.
\<close>

theorem C9_checksum_format:
  "take 7 (computeChecksum c) = ''sha256:'' \<and>
   length (drop 7 (computeChecksum c)) = 64 \<and>
   list_all (\<lambda>c. c \<in> set ''abcdef0123456789'') (drop 7 (computeChecksum c)) \<and>
   checksumSchema (computeChecksum c)"
  using hexDigest_shape [of "sha256 (map of_char (replaceCRLF c))"]
  by (simp add: computeChecksum_def checksumSchema_def Let_def)

theorem C9_checksum_format_witness:
  "checksumSchema (computeChecksum ''export const Button = 1'')"
  using C9_checksum_format [of "''export const Button = 1''"] by simp

text \<open>
  The digests of a line feed and of a carriage return followed by a line feed.
\<close>

lemma sha256_lf:
  "hexDigest (sha256 [10]) = ''01ba4719c80b6fe911b091a7c05124b64eeece964e09c058ef8f9805daca546b''"
  by code_simp

lemma sha256_crlf:
  "hexDigest (sha256 [13, 10]) = ''7eb70257593da06f682a3ddda54a9d260d4fc514f645237f5ca74b08f8da61a6''"
  by code_simp

text \<open>
  C1 as stated fails where a carriage return stands directly before a CRLF pair: the
  scan rewrites the pair and leaves the carriage return, which now stands before a
  line feed. The content CR CR LF is hashed as CR LF, while its rewriting CR LF is
  hashed as LF.
\<close>

theorem C1_checksum_crlf_counterexample:
  "computeChecksum [CHR 0x0D, CHR 0x0D, CHR 0x0A] \<noteq>
     computeChecksum (replaceCRLF [CHR 0x0D, CHR 0x0D, CHR 0x0A])"
proof -
  have "computeChecksum [CHR 0x0D, CHR 0x0D, CHR 0x0A]
      = ''sha256:7eb70257593da06f682a3ddda54a9d260d4fc514f645237f5ca74b08f8da61a6''"
    by (simp add: computeChecksum_def Let_def sha256_crlf)
  moreover have "computeChecksum (replaceCRLF [CHR 0x0D, CHR 0x0D, CHR 0x0A])
      = ''sha256:01ba4719c80b6fe911b091a7c05124b64eeece964e09c058ef8f9805daca546b''"
    by (simp add: computeChecksum_def Let_def sha256_lf)
  ultimately show ?thesis by simp
qed

text \<open>
  C1, amended. The checksum is a function of the content, and for every content in
  which no carriage return stands directly before a CRLF pair it equals the checksum
  of the content with every CRLF pair replaced by a line feed.
\<close>

theorem C1_checksum_crlf:
  "\<not> includesStr c [CHR 0x0D, CHR 0x0D, CHR 0x0A] \<Longrightarrow>
     computeChecksum c = computeChecksum (replaceCRLF c)"
  by (simp add: computeChecksum_def Let_def replaceCRLF_idem)


theorem C1_checksum_crlf_witness:
  "\<not> includesStr [CHR ''a'', CHR 0x0D, CHR 0x0A, CHR ''b''] [CHR 0x0D, CHR 0x0D, CHR 0x0A] \<and>
   replaceCRLF [CHR ''a'', CHR 0x0D, CHR 0x0A, CHR ''b''] = [CHR ''a'', CHR 0x0A, CHR ''b''] \<and>
   computeChecksum [CHR ''a'', CHR 0x0D, CHR 0x0A, CHR ''b'']
     = computeChecksum [CHR ''a'', CHR 0x0A, CHR ''b'']"
proof -
  have h: "\<not> includesStr [CHR ''a'', CHR 0x0D, CHR 0x0A, CHR ''b''] [CHR 0x0D, CHR 0x0D, CHR 0x0A]"
    by simp
  have r: "replaceCRLF [CHR ''a'', CHR 0x0D, CHR 0x0A, CHR ''b''] = [CHR ''a'', CHR 0x0A, CHR ''b'']"
    by simp
  from C1_checksum_crlf [OF h] h r show ?thesis by simp
qed

section \<open>Three-way merge: properties\<close>

lemma mergeStep_fold:
  "foldl (mergeStep labels) (n, acc) blocks =
     (n + length (filter isConflict blocks),
      acc @ concat (map (specBlockLines (oursLabel labels) (theirsLabel labels)) blocks))"
proof (induction blocks arbitrary: n acc)
  case Nil
  then show ?case by simp
next
  case (Cons blk blocks)
  then show ?case
    by (cases blk) (simp_all add: specConflictRegion_def)
qed

lemma threeWayMerge_blocks:
  "threeWayMerge base ours' theirs' labels =
     (let blocks = diff3Merge (splitLines ours') (splitLines base) (splitLines theirs')
      in \<lparr>success = (length (filter isConflict blocks) = 0),
          content = joinLines (concat (map (specBlockLines (oursLabel labels) (theirsLabel labels)) blocks)),
          conflictCount = length (filter isConflict blocks)\<rparr>)"
  by (simp add: threeWayMerge_def Let_def mergeStep_fold)

text \<open>The line merges of the scenarios B and C of the spec and of two variants.\<close>

lemma diff3Merge_scenarioB:
  "diff3Merge [''a'', ''B'', ''c''] [''a'', ''b'', ''c''] [''a'', ''b'', ''C'']
     = [Ok [''a''], Conflict [''B'', ''c''] 1 [''b'', ''c''] 1 [''b'', ''C''] 1]"
  by code_simp

lemma diff3Merge_separated:
  "diff3Merge [''a'', ''B'', ''c'', ''d''] [''a'', ''b'', ''c'', ''d''] [''a'', ''b'', ''c'', ''D'']
     = [Ok [''a'', ''B'', ''c'', ''D'']]"
  by code_simp

lemma diff3Merge_scenarioC:
  "diff3Merge [''a'', ''X'', ''c''] [''a'', ''b'', ''c''] [''a'', ''Y'', ''c'']
     = [Ok [''a''], Conflict [''X''] 1 [''b''] 1 [''Y''] 1, Ok [''c'']]"
  by code_simp

lemma diff3Merge_leftover:
  "diff3Merge [''<<<<<<< old'', ''x''] [''a''] [''b'']
     = [Conflict [''<<<<<<< old'', ''x''] 0 [''a''] 0 [''b''] 0]"
  by code_simp

text \<open>
  C4 as stated fails: in scenario B the user's edit of line 2 and the upstream edit of
  line 3 change adjacent lines of the base, their hunks touch, and the line merge
  puts them into one conflict region.
\<close>

theorem C4_scenarioB_counterexample:
  "\<not> (success (threeWayMerge
          [CHR ''a'', CHR 0x0A, CHR ''b'', CHR 0x0A, CHR ''c'']
          [CHR ''a'', CHR 0x0A, CHR ''B'', CHR 0x0A, CHR ''c'']
          [CHR ''a'', CHR 0x0A, CHR ''b'', CHR 0x0A, CHR ''C''] None) \<and>
       conflictCount (threeWayMerge
          [CHR ''a'', CHR 0x0A, CHR ''b'', CHR 0x0A, CHR ''c'']
          [CHR ''a'', CHR 0x0A, CHR ''B'', CHR 0x0A, CHR ''c'']
          [CHR ''a'', CHR 0x0A, CHR ''b'', CHR 0x0A, CHR ''C''] None) = 0 \<and>
       content (threeWayMerge
          [CHR ''a'', CHR 0x0A, CHR ''b'', CHR 0x0A, CHR ''c'']
          [CHR ''a'', CHR 0x0A, CHR ''B'', CHR 0x0A, CHR ''c'']
          [CHR ''a'', CHR 0x0A, CHR ''b'', CHR 0x0A, CHR ''C''] None)
         = [CHR ''a'', CHR 0x0A, CHR ''B'', CHR 0x0A, CHR ''C''])"
  by (simp add: threeWayMerge_blocks diff3Merge_scenarioB)

text \<open>
  C4, amended. For base a, b, c, ours a, B, c and theirs a, b, C (one line each) and
  any labels, \<open>threeWayMerge\<close> reports one conflict: the content is the line a followed
  by one conflict region with the ours lines B, c and the theirs lines b, C, so the
  edits of both sides are kept, inside the region. When an unchanged line separates
  the two edits (base a, b, c, d, ours a, B, c, d, theirs a, b, c, D) the merge
  succeeds without conflict and the content is a, B, c, D.
\<close>

theorem C4_scenarioB:
  "threeWayMerge
      [CHR ''a'', CHR 0x0A, CHR ''b'', CHR 0x0A, CHR ''c'']
      [CHR ''a'', CHR 0x0A, CHR ''B'', CHR 0x0A, CHR ''c'']
      [CHR ''a'', CHR 0x0A, CHR ''b'', CHR 0x0A, CHR ''C''] labels
    = \<lparr>success = False,
       content = joinLines [''a'', ''<<<<<<< '' @ oursLabel labels, ''B'', ''c'', ''======='',
                            ''b'', ''C'', ''>>>>>>> '' @ theirsLabel labels],
       conflictCount = 1\<rparr> \<and>
   threeWayMerge
      [CHR ''a'', CHR 0x0A, CHR ''b'', CHR 0x0A, CHR ''c'', CHR 0x0A, CHR ''d'']
      [CHR ''a'', CHR 0x0A, CHR ''B'', CHR 0x0A, CHR ''c'', CHR 0x0A, CHR ''d'']
      [CHR ''a'', CHR 0x0A, CHR ''b'', CHR 0x0A, CHR ''c'', CHR 0x0A, CHR ''D''] labels
    = \<lparr>success = True,
       content = [CHR ''a'', CHR 0x0A, CHR ''B'', CHR 0x0A, CHR ''c'', CHR 0x0A, CHR ''D''],
       conflictCount = 0\<rparr>"
  by (simp add: threeWayMerge_blocks diff3Merge_scenarioB diff3Merge_separated
      specConflictRegion_def)

theorem C4_scenarioB_witness:
  "conflictCount (threeWayMerge
      [CHR ''a'', CHR 0x0A, CHR ''b'', CHR 0x0A, CHR ''c'']
      [CHR ''a'', CHR 0x0A, CHR ''B'', CHR 0x0A, CHR ''c'']
      [CHR ''a'', CHR 0x0A, CHR ''b'', CHR 0x0A, CHR ''C'']
      (Some \<lparr>ours = Some ''your changes'', theirs = Some ''v2.0.0''\<rparr>)) = 1"
  using C4_scenarioB [of "Some \<lparr>ours = Some ''your changes'', theirs = Some ''v2.0.0''\<rparr>"]
  by simp

text \<open>
  C7 as stated fails on the ours label: without labels the ours marker of a conflict
  region is \<open><<<<<<< ours (your changes)\<close>, not \<open><<<<<<< your changes\<close>. In scenario
  C (both sides change line 2) there is one conflict and the content is not the one
  rendered with the label \<open>your changes\<close>.
\<close>

theorem C7_default_labels_counterexample:
  "conflictCount (threeWayMerge
      [CHR ''a'', CHR 0x0A, CHR ''b'', CHR 0x0A, CHR ''c'']
      [CHR ''a'', CHR 0x0A, CHR ''X'', CHR 0x0A, CHR ''c'']
      [CHR ''a'', CHR 0x0A, CHR ''Y'', CHR 0x0A, CHR ''c''] None) = 1 \<and>
   content (threeWayMerge
      [CHR ''a'', CHR 0x0A, CHR ''b'', CHR 0x0A, CHR ''c'']
      [CHR ''a'', CHR 0x0A, CHR ''X'', CHR 0x0A, CHR ''c'']
      [CHR ''a'', CHR 0x0A, CHR ''Y'', CHR 0x0A, CHR ''c''] None)
     \<noteq> joinLines (concat (map (specBlockLines ''your changes'' ''theirs (upstream)'')
          (diff3Merge [''a'', ''X'', ''c''] [''a'', ''b'', ''c''] [''a'', ''Y'', ''c''])))"
  by (simp add: threeWayMerge_blocks diff3Merge_scenarioC specConflictRegion_def
      oursLabel_def theirsLabel_def)

text \<open>
  C7, amended. When the caller supplies no labels (no labels object, or one without
  the two fields), the content is the lines of the merge results joined by line
  feeds, where merged lines are taken as they are and every conflict is emitted as
  \<open><<<<<<< ours (your changes)\<close>, the ours lines, \<open>=======\<close>, the theirs lines and
  \<open>>>>>>>> theirs (upstream)\<close>; the conflict count is the number of these regions.
\<close>

theorem C7_default_labels:
  "content (threeWayMerge base ours' theirs' None)
     = joinLines (concat (map (specBlockLines ''ours (your changes)'' ''theirs (upstream)'')
         (diff3Merge (splitLines ours') (splitLines base) (splitLines theirs')))) \<and>
   content (threeWayMerge base ours' theirs' (Some \<lparr>ours = None, theirs = None\<rparr>))
     = joinLines (concat (map (specBlockLines ''ours (your changes)'' ''theirs (upstream)'')
         (diff3Merge (splitLines ours') (splitLines base) (splitLines theirs')))) \<and>
   conflictCount (threeWayMerge base ours' theirs' None)
     = length (filter isConflict
         (diff3Merge (splitLines ours') (splitLines base) (splitLines theirs')))"
  by (simp add: threeWayMerge_blocks Let_def oursLabel_def theirsLabel_def)

theorem C7_default_labels_witness:
  "content (threeWayMerge
      [CHR ''a'', CHR 0x0A, CHR ''b'', CHR 0x0A, CHR ''c'']
      [CHR ''a'', CHR 0x0A, CHR ''X'', CHR 0x0A, CHR ''c'']
      [CHR ''a'', CHR 0x0A, CHR ''Y'', CHR 0x0A, CHR ''c''] None)
     = joinLines [''a'', ''<<<<<<< ours (your changes)'', ''X'', ''======='', ''Y'',
                  ''>>>>>>> theirs (upstream)'', ''c'']"
  using C7_default_labels [of "[CHR ''a'', CHR 0x0A, CHR ''b'', CHR 0x0A, CHR ''c'']"
      "[CHR ''a'', CHR 0x0A, CHR ''X'', CHR 0x0A, CHR ''c'']"
      "[CHR ''a'', CHR 0x0A, CHR ''Y'', CHR 0x0A, CHR ''c'']"]
  by (simp add: diff3Merge_scenarioC specConflictRegion_def)

text \<open>Every line of a merge result is a line of one of the three inputs.\<close>

lemma set_slice: "set (slice xs i j) \<subseteq> set xs"
  unfolding slice_def Let_def
  by (meson set_take_subset set_drop_subset subset_trans)

lemma advanceTo_lines:
  "\<forall>r \<in> set results. set_region r \<subseteq> S \<Longrightarrow> set o' \<subseteq> S \<Longrightarrow>
     \<forall>r \<in> set (fst (advanceTo o' e (results, cur))). set_region r \<subseteq> S"
  using set_slice [of o' cur e] by (auto simp: advanceTo_def)

lemma conflictRegion_lines:
  "set_region (conflictRegion a o' b rs re hs) \<subseteq> set a \<union> set o' \<union> set b"
  by (auto simp: conflictRegion_def Let_def split: prod.splits dest: set_slice [THEN subsetD])

lemma regionLoop_lines:
  "\<forall>r \<in> set (fst st). set_region r \<subseteq> set a \<union> set o' \<union> set b \<Longrightarrow>
     \<forall>r \<in> set (fst (regionLoop a o' b hunks st)). set_region r \<subseteq> set a \<union> set o' \<union> set b"
proof (induction a o' b hunks st rule: regionLoop.induct)
  case (1 a o' b st)
  then show ?case by (simp add: regionLoop.simps)
next
  case (2 a o' b hunk hunks st)
  obtain regionEnd regionHunks rest where
    p: "pullHunks (oStart hunk + oLength hunk) [hunk] hunks = (regionEnd, regionHunks, rest)"
    by (cases "pullHunks (oStart hunk + oLength hunk) [hunk] hunks") auto
  obtain results currOffset where
    adv: "advanceTo o' (oStart hunk) st = (results, currOffset)"
    by (cases "advanceTo o' (oStart hunk) st") auto
  have res: "\<forall>r \<in> set results. set_region r \<subseteq> set a \<union> set o' \<union> set b"
    using advanceTo_lines [of "fst st" "set a \<union> set o' \<union> set b" o' "oStart hunk" "snd st"]
      "2.prems" adv by auto
  let ?st' = "(if length regionHunks = 1 then
             (if abLength hunk > 0 then
                results @ [Stable (Some (ab hunk)) (abStart hunk) (abLength hunk)
                  (slice (if ab hunk = SideA then a else b) (abStart hunk)
                     (abStart hunk + abLength hunk))]
              else results)
           else results @ [conflictRegion a o' b (oStart hunk) regionEnd regionHunks],
           regionEnd)"
  have "\<forall>r \<in> set (fst ?st'). set_region r \<subseteq> set a \<union> set o' \<union> set b"
    using res conflictRegion_lines [of a o' b "oStart hunk" regionEnd regionHunks]
      set_slice [of a "abStart hunk" "abStart hunk + abLength hunk"]
      set_slice [of b "abStart hunk" "abStart hunk + abLength hunk"]
    by auto
  from "2.IH" [OF refl p [symmetric] refl adv [symmetric] this]
  show ?case
    by (simp add: regionLoop.simps p adv Let_def)
qed

lemma diff3MergeRegions_lines:
  "\<forall>r \<in> set (diff3MergeRegions a o' b). set_region r \<subseteq> set a \<union> set o' \<union> set b"
proof -
  let ?hunks = "sort_key oStart
     (map (addHunk SideA) (diffIndices o' a) @ map (addHunk SideB) (diffIndices o' b))"
  obtain results cur where st: "regionLoop a o' b ?hunks ([], 0) = (results, cur)"
    by (cases "regionLoop a o' b ?hunks ([], 0)") auto
  have "\<forall>r \<in> set results. set_region r \<subseteq> set a \<union> set o' \<union> set b"
    using regionLoop_lines [of "([], 0)" a o' b ?hunks] st by simp
  from advanceTo_lines [OF this, of o' "int (length o')" cur]
  show ?thesis
    by (auto simp: diff3MergeRegions_def Let_def st)
qed

lemma mergeRegion_lines:
  "\<forall>blk \<in> set (fst st). set_mergeBlock blk \<subseteq> S \<Longrightarrow> set (snd st) \<subseteq> S \<Longrightarrow>
   set_region r \<subseteq> S \<Longrightarrow>
     (\<forall>blk \<in> set (fst (mergeRegion st r)). set_mergeBlock blk \<subseteq> S) \<and>
     set (snd (mergeRegion st r)) \<subseteq> S"
  by (cases st; cases r) (auto simp: flushOk_def)

lemma mergeRegion_fold_lines:
  "\<forall>blk \<in> set (fst st). set_mergeBlock blk \<subseteq> S \<Longrightarrow> set (snd st) \<subseteq> S \<Longrightarrow>
   \<forall>r \<in> set rs. set_region r \<subseteq> S \<Longrightarrow>
     (\<forall>blk \<in> set (fst (foldl mergeRegion st rs)). set_mergeBlock blk \<subseteq> S) \<and>
     set (snd (foldl mergeRegion st rs)) \<subseteq> S"
proof (induction rs arbitrary: st)
  case Nil
  then show ?case by simp
next
  case (Cons r rs)
  have "(\<forall>blk \<in> set (fst (mergeRegion st r)). set_mergeBlock blk \<subseteq> S) \<and>
     set (snd (mergeRegion st r)) \<subseteq> S"
    using Cons.prems by (intro mergeRegion_lines) simp_all
  then show ?case
    using Cons.IH [of "mergeRegion st r"] Cons.prems by simp
qed

lemma diff3Merge_lines:
  "blk \<in> set (diff3Merge a o' b) \<Longrightarrow> set_mergeBlock blk \<subseteq> set a \<union> set o' \<union> set b"
proof -
  let ?S = "set a \<union> set o' \<union> set b"
  let ?st = "foldl mergeRegion ([], []) (diff3MergeRegions a o' b)"
  assume blk: "blk \<in> set (diff3Merge a o' b)"
  have "(\<forall>blk \<in> set (fst ?st). set_mergeBlock blk \<subseteq> ?S) \<and> set (snd ?st) \<subseteq> ?S"
    using diff3MergeRegions_lines [of a o' b]
    by (intro mergeRegion_fold_lines) simp_all
  then have "\<forall>blk \<in> set (fst (flushOk ?st)). set_mergeBlock blk \<subseteq> ?S"
    by (cases ?st) (auto simp: flushOk_def)
  with blk show ?thesis
    by (simp add: diff3Merge_def)
qed

text \<open>Counting matches line by line.\<close>

lemma take_whole: "take (length pat) xs = pat \<Longrightarrow> length pat \<le> length xs"
proof -
  assume "take (length pat) xs = pat"
  then have "length (take (length pat) xs) = length pat" by simp
  then show ?thesis by simp
qed

lemma take_pattern_line:
  assumes "CHR 0x0A \<notin> set pat"
  shows "(take (length pat) (l @ CHR 0x0A # rest) = pat) = (take (length pat) l = pat)"
proof
  assume t: "take (length pat) (l @ CHR 0x0A # rest) = pat"
  have "length pat \<le> length l"
  proof (rule ccontr)
    assume "\<not> length pat \<le> length l"
    then have "length l < length pat" by simp
    then have "take (length pat) (l @ CHR 0x0A # rest) ! length l = CHR 0x0A"
      by (simp add: nth_append)
    with t \<open>length l < length pat\<close> have "CHR 0x0A \<in> set pat"
      by (metis nth_mem)
    with assms show False by simp
  qed
  with t show "take (length pat) l = pat" by simp
next
  assume t: "take (length pat) l = pat"
  then have "length pat \<le> length l"
    by (rule take_whole)
  with t show "take (length pat) (l @ CHR 0x0A # rest) = pat" by simp
qed

lemma countMatches_line:
  "pat \<noteq> [] \<Longrightarrow> CHR 0x0A \<notin> set pat \<Longrightarrow>
     countMatches pat (l @ CHR 0x0A # rest) = countMatches pat l + countMatches pat rest"
proof (induction pat l rule: countMatches.induct)
  case (1 pat)
  then have "take (length pat) (CHR 0x0A # rest) \<noteq> pat"
    by (cases pat) auto
  then show ?case by simp
next
  case (2 pat c cs)
  show ?case
  proof (cases "take (length pat) (c # cs) = pat")
    case True
    then have len: "length pat \<le> Suc (length cs)"
      using take_whole [of pat "c # cs"] by simp
    have long: "take (length pat) (c # cs @ CHR 0x0A # rest) = pat"
      using take_pattern_line [OF "2.prems"(2), of "c # cs" rest] True by simp
    have "drop (length pat - 1) (cs @ CHR 0x0A # rest)
        = drop (length pat - 1) cs @ CHR 0x0A # rest"
      using len by simp
    with "2.IH"(1) [OF True "2.prems"] True long show ?thesis by simp
  next
    case False
    have long: "take (length pat) (c # cs @ CHR 0x0A # rest) \<noteq> pat"
      using take_pattern_line [OF "2.prems"(2), of "c # cs" rest] False by simp
    with "2.IH"(2) [OF False "2.prems"] False show ?thesis by simp
  qed
qed

lemma countMatches_joinLines:
  "pat \<noteq> [] \<Longrightarrow> CHR 0x0A \<notin> set pat \<Longrightarrow>
     countMatches pat (joinLines ls) = sum_list (map (countMatches pat) ls)"
  by (induction ls rule: joinLines.induct) (simp_all add: countMatches_line)

lemma countMatches_none: "\<not> includesStr s pat \<Longrightarrow> countMatches pat s = 0"
  by (induction pat s rule: countMatches.induct) auto

text \<open>A line that contains the pattern makes the text contain it.\<close>

lemma splitLines_nonempty: "splitLines s \<noteq> []"
  by (induction s) auto

lemma splitLines_first: "\<exists>rest. s = hd (splitLines s) @ rest"
  by (induction s) auto

lemma includesStr_line:
  "l \<in> set (splitLines s) \<Longrightarrow> includesStr l pat \<Longrightarrow> pat \<noteq> [] \<Longrightarrow> includesStr s pat"
proof (induction s arbitrary: l)
  case Nil
  then show ?case by simp
next
  case (Cons c cs)
  show ?case
  proof (cases "c = CHR 0x0A")
    case True
    with Cons.prems have "l \<in> set (splitLines cs)" by auto
    from Cons.IH [OF this Cons.prems(2,3)] show ?thesis by simp
  next
    case False
    with Cons.prems(1) have "l = c # hd (splitLines cs) \<or> l \<in> set (tl (splitLines cs))"
      by simp
    then show ?thesis
    proof
      assume l: "l = c # hd (splitLines cs)"
      from Cons.prems(2) l have
        "take (length pat) (c # hd (splitLines cs)) = pat \<or> includesStr (hd (splitLines cs)) pat"
        by simp
      then show ?thesis
      proof
        assume t: "take (length pat) (c # hd (splitLines cs)) = pat"
        then have len: "length pat \<le> Suc (length (hd (splitLines cs)))"
          using take_whole [of pat "c # hd (splitLines cs)"] by simp
        obtain rest where "cs = hd (splitLines cs) @ rest"
          using splitLines_first by blast
        then have "take (length pat) (c # cs) = take (length pat) (c # hd (splitLines cs) @ rest)"
          by simp
        also have "\<dots> = take (length pat) (c # hd (splitLines cs))"
          using len by (cases "length pat") simp_all
        finally show ?thesis using t by simp
      next
        assume "includesStr (hd (splitLines cs)) pat"
        moreover have "hd (splitLines cs) \<in> set (splitLines cs)"
          using splitLines_nonempty by simp
        ultimately have "includesStr cs pat"
          using Cons.IH Cons.prems(3) by blast
        then show ?thesis by simp
      qed
    next
      assume "l \<in> set (tl (splitLines cs))"
      then have "l \<in> set (splitLines cs)"
        by (meson list.set_sel(2) splitLines_nonempty)
      from Cons.IH [OF this Cons.prems(2,3)] show ?thesis by simp
    qed
  qed
qed

lemma countMatches_markers:
  "countMatches ''<<<<<<<'' (''<<<<<<< '' @ l) = Suc (countMatches ''<<<<<<<'' l)"
  "countMatches ''<<<<<<<'' (''>>>>>>> '' @ l) = countMatches ''<<<<<<<'' l"
  "countMatches ''<<<<<<<'' ''======='' = 0"
  "countMatches ''>>>>>>>'' (''<<<<<<< '' @ l) = countMatches ''>>>>>>>'' l"
  "countMatches ''>>>>>>>'' (''>>>>>>> '' @ l) = Suc (countMatches ''>>>>>>>'' l)"
  "countMatches ''>>>>>>>'' ''======='' = 0"
  by simp_all

lemma countMatches_blocks:
  assumes lines: "\<forall>blk \<in> set blocks. \<forall>l \<in> set_mergeBlock blk. countMatches pat l = 0"
    and ours: "countMatches pat (''<<<<<<< '' @ olab) = x"
    and sep: "countMatches pat ''======='' = 0"
    and theirs: "countMatches pat (''>>>>>>> '' @ tlab) = y"
  shows "sum_list (map (countMatches pat) (concat (map (specBlockLines olab tlab) blocks)))
     = (x + y) * length (filter isConflict blocks)"
  using lines
proof (induction blocks)
  case Nil
  then show ?case by simp
next
  case (Cons blk blocks)
  have zero: "set ls \<subseteq> set_mergeBlock blk \<Longrightarrow> sum_list (map (countMatches pat) ls) = 0" for ls
    using Cons.prems by (induction ls) auto
  show ?case
  proof (cases blk)
    case (Ok ls)
    with Cons zero [of ls] show ?thesis by simp
  next
    case (Conflict ca ai co oi cb bi)
    with Cons zero [of ca] zero [of cb] ours sep theirs show ?thesis
      by (simp add: specConflictRegion_def)
  qed
qed

text \<open>
  C5 as stated fails when a line of the inputs holds a marker itself, as the local
  file does when it still has the markers that an earlier merge wrote: with the
  ours lines \<open><<<<<<< old\<close> and \<open>x\<close> against base \<open>a\<close> and theirs \<open>b\<close> there is one
  conflict and the content holds \<open><<<<<<<\<close> twice.
\<close>

theorem C5_marker_count_counterexample:
  "0 < conflictCount (threeWayMerge ''a''
         (''<<<<<<< old'' @ [CHR 0x0A] @ ''x'') ''b'' None) \<and>
   countConflicts (content (threeWayMerge ''a''
         (''<<<<<<< old'' @ [CHR 0x0A] @ ''x'') ''b'' None))
     \<noteq> conflictCount (threeWayMerge ''a''
         (''<<<<<<< old'' @ [CHR 0x0A] @ ''x'') ''b'' None)"
  by (simp add: threeWayMerge_blocks diff3Merge_leftover specConflictRegion_def
      oursLabel_def theirsLabel_def countConflicts_def)

text \<open>
  C5, amended. If none of base, ours and theirs and neither of the two labels in
  effect contains \<open><<<<<<<\<close> or \<open>>>>>>>>\<close>, then whenever the conflict count is
  positive the content holds exactly that many matches of \<open><<<<<<<\<close> (what
  \<open>countConflicts\<close> counts) and exactly that many of \<open>>>>>>>>\<close>.
\<close>

theorem C5_marker_count:
  assumes "\<not> includesStr base ''<<<<<<<''" "\<not> includesStr base ''>>>>>>>''"
    and "\<not> includesStr ours' ''<<<<<<<''" "\<not> includesStr ours' ''>>>>>>>''"
    and "\<not> includesStr theirs' ''<<<<<<<''" "\<not> includesStr theirs' ''>>>>>>>''"
    and "\<not> includesStr (oursLabel labels) ''<<<<<<<''"
      "\<not> includesStr (oursLabel labels) ''>>>>>>>''"
    and "\<not> includesStr (theirsLabel labels) ''<<<<<<<''"
      "\<not> includesStr (theirsLabel labels) ''>>>>>>>''"
    and "0 < conflictCount (threeWayMerge base ours' theirs' labels)"
  shows "countConflicts (content (threeWayMerge base ours' theirs' labels))
           = conflictCount (threeWayMerge base ours' theirs' labels) \<and>
         countMatches ''>>>>>>>'' (content (threeWayMerge base ours' theirs' labels))
           = conflictCount (threeWayMerge base ours' theirs' labels)"
proof -
  let ?blocks = "diff3Merge (splitLines ours') (splitLines base) (splitLines theirs')"
  let ?lines = "concat (map (specBlockLines (oursLabel labels) (theirsLabel labels)) ?blocks)"
  have input: "\<forall>blk \<in> set ?blocks. \<forall>l \<in> set_mergeBlock blk. countMatches pat l = 0"
    if "\<not> includesStr base pat" "\<not> includesStr ours' pat" "\<not> includesStr theirs' pat"
      "pat \<noteq> []" for pat
  proof (intro ballI)
    fix blk l assume "blk \<in> set ?blocks" "l \<in> set_mergeBlock blk"
    then have "l \<in> set (splitLines ours') \<union> set (splitLines base) \<union> set (splitLines theirs')"
      using diff3Merge_lines by blast
    then have "\<not> includesStr l pat"
      using that includesStr_line [of l _ pat] by blast
    then show "countMatches pat l = 0" by (rule countMatches_none)
  qed
  have open_count: "sum_list (map (countMatches ''<<<<<<<'') ?lines)
      = length (filter isConflict ?blocks)"
    using countMatches_blocks [of ?blocks "''<<<<<<<''" "oursLabel labels" 1 "theirsLabel labels" 0]
      input [of "''<<<<<<<''"] assms countMatches_none
    by (simp add: countMatches_markers)
  have close_count: "sum_list (map (countMatches ''>>>>>>>'') ?lines)
      = length (filter isConflict ?blocks)"
    using countMatches_blocks [of ?blocks "''>>>>>>>''" "oursLabel labels" 0 "theirsLabel labels" 1]
      input [of "''>>>>>>>''"] assms countMatches_none
    by (simp add: countMatches_markers)
  have "countMatches ''<<<<<<<'' (joinLines ?lines) = length (filter isConflict ?blocks)"
    using open_count by (subst countMatches_joinLines) simp_all
  moreover have "countMatches ''>>>>>>>'' (joinLines ?lines) = length (filter isConflict ?blocks)"
    using close_count by (subst countMatches_joinLines) simp_all
  ultimately show ?thesis
    by (simp add: threeWayMerge_blocks Let_def countConflicts_def)
qed

theorem C5_marker_count_witness:
  "conflictCount (threeWayMerge
      [CHR ''a'', CHR 0x0A, CHR ''b'', CHR 0x0A, CHR ''c'']
      [CHR ''a'', CHR 0x0A, CHR ''X'', CHR 0x0A, CHR ''c'']
      [CHR ''a'', CHR 0x0A, CHR ''Y'', CHR 0x0A, CHR ''c''] None) = 1 \<and>
   countConflicts (content (threeWayMerge
      [CHR ''a'', CHR 0x0A, CHR ''b'', CHR 0x0A, CHR ''c'']
      [CHR ''a'', CHR 0x0A, CHR ''X'', CHR 0x0A, CHR ''c'']
      [CHR ''a'', CHR 0x0A, CHR ''Y'', CHR 0x0A, CHR ''c''] None)) = 1 \<and>
   countMatches ''>>>>>>>'' (content (threeWayMerge
      [CHR ''a'', CHR 0x0A, CHR ''b'', CHR 0x0A, CHR ''c'']
      [CHR ''a'', CHR 0x0A, CHR ''X'', CHR 0x0A, CHR ''c'']
      [CHR ''a'', CHR 0x0A, CHR ''Y'', CHR 0x0A, CHR ''c''] None)) = 1"
proof -
  let ?base = "[CHR ''a'', CHR 0x0A, CHR ''b'', CHR 0x0A, CHR ''c'']"
  let ?ours = "[CHR ''a'', CHR 0x0A, CHR ''X'', CHR 0x0A, CHR ''c'']"
  let ?theirs = "[CHR ''a'', CHR 0x0A, CHR ''Y'', CHR 0x0A, CHR ''c'']"
  have n: "conflictCount (threeWayMerge ?base ?ours ?theirs None) = 1"
    by (simp add: threeWayMerge_blocks diff3Merge_scenarioC)
  have "countConflicts (content (threeWayMerge ?base ?ours ?theirs None))
           = conflictCount (threeWayMerge ?base ?ours ?theirs None) \<and>
         countMatches ''>>>>>>>'' (content (threeWayMerge ?base ?ours ?theirs None))
           = conflictCount (threeWayMerge ?base ?ours ?theirs None)"
    by (rule C5_marker_count) (simp_all add: oursLabel_def theirsLabel_def n)
  with n show ?thesis by simp
qed

section \<open>The line merge: common subsequences\<close>

lemma findSlot_hit:
  "s < length cands \<Longrightarrow> buffer2index (cands ! s) < j \<Longrightarrow>
   s = length cands - 1 \<or> buffer2index (cands ! (s + 1)) > j \<Longrightarrow> findSlot j cands s = s"
  by (subst findSlot.simps) simp

lemma findSlot_skip:
  "s < length cands \<Longrightarrow>
   \<not> (buffer2index (cands ! s) < j \<and>
      (s = length cands - 1 \<or> buffer2index (cands ! (s + 1)) > j)) \<Longrightarrow>
   findSlot j cands s = findSlot j cands (s + 1)"
  by (subst findSlot.simps) auto

lemma findSlot_end: "\<not> s < length cands \<Longrightarrow> findSlot j cands s = s"
  by (subst findSlot.simps) simp

lemma findSlot_bounds:
  "r \<le> length cands \<Longrightarrow> r \<le> findSlot j cands r \<and> findSlot j cands r \<le> length cands"
proof (induction j cands r rule: findSlot.induct)
  case (1 j cands s)
  show ?case
  proof (cases "s < length cands")
    case True
    show ?thesis
    proof (cases "buffer2index (cands ! s) < j \<and>
        (s = length cands - 1 \<or> buffer2index (cands ! (s + 1)) > j)")
      case found: True
      with True show ?thesis by (subst (1 2) findSlot.simps) simp
    next
      case False
      with True "1.IH" have "s + 1 \<le> findSlot j cands (s + 1) \<and>
          findSlot j cands (s + 1) \<le> length cands" by simp
      with True False show ?thesis by (subst (1 2) findSlot.simps) auto
    qed
  next
    case False
    with "1.prems" show ?thesis by (subst (1 2) findSlot.simps) simp
  qed
qed

lemma findSlot_found:
  "findSlot j cands r < length cands \<Longrightarrow> buffer2index (cands ! findSlot j cands r) < j"
proof (induction j cands r rule: findSlot.induct)
  case (1 j cands s)
  show ?case
  proof (cases "s < length cands")
    case True
    show ?thesis
    proof (cases "buffer2index (cands ! s) < j \<and>
        (s = length cands - 1 \<or> buffer2index (cands ! (s + 1)) > j)")
      case found: True
      with True show ?thesis by (subst findSlot.simps) simp
    next
      case False
      have eq: "findSlot j cands s = findSlot j cands (s + 1)"
        using True False by (subst findSlot.simps) auto
      with "1.prems" "1.IH" True False show ?thesis by auto
    qed
  next
    case False
    then have "findSlot j cands s = s" by (subst findSlot.simps) simp
    with "1.prems" False show ?thesis by simp
  qed
qed

lemma lcsScan_valid:
  assumes "0 \<le> i" "i < int (length b1)"
    and "\<forall>j \<in> set js. 0 \<le> j \<and> j < int (length b2) \<and> b2 ! nat j = b1 ! nat i"
    and "r < length cands"
    and "\<forall>k < length cands. validChain b1 b2 (cands ! k) \<and> buffer1index (cands ! k) \<le> i"
    and "\<forall>k. r \<le> k \<and> k < length cands \<longrightarrow> buffer1index (cands ! k) < i"
    and "validChain b1 b2 c \<and> buffer1index c \<le> i"
    and "lcsScan i js r c cands = (r', c', cands')"
  shows "r' \<le> length cands' \<and> cands' \<noteq> [] \<and>
     (\<forall>k < length cands'. validChain b1 b2 (cands' ! k) \<and> buffer1index (cands' ! k) \<le> i) \<and>
     validChain b1 b2 c' \<and> buffer1index c' \<le> i"
  using assms(3-)
proof (induction js arbitrary: r c cands)
  case Nil
  then show ?case by auto
next
  case (Cons j js)
  let ?s = "findSlot j cands r"
  have sb: "r \<le> ?s \<and> ?s \<le> length cands"
    using findSlot_bounds [of r cands j] Cons.prems(2) by simp
  show ?case
  proof (cases "?s < length cands")
    case False
    with Cons.prems(6) have "lcsScan i js r c cands = (r', c', cands')" by simp
    with Cons.IH [of r cands c] Cons.prems show ?thesis by simp
  next
    case True
    let ?new = "Candidate i j (Some (cands ! ?s))"
    let ?cands = "cands[r := c]"
    have set: "setAt cands r c = ?cands"
      using Cons.prems(2) by (simp add: setAt_def)
    have new: "validChain b1 b2 ?new \<and> buffer1index ?new \<le> i"
      using True sb Cons.prems(1,3,4) findSlot_found [OF True] assms(1,2) by auto
    have all: "\<forall>k < length ?cands. validChain b1 b2 (?cands ! k) \<and> buffer1index (?cands ! k) \<le> i"
    proof (intro allI impI)
      fix k assume "k < length ?cands"
      then show "validChain b1 b2 (?cands ! k) \<and> buffer1index (?cands ! k) \<le> i"
        using Cons.prems(3,5) by (cases "k = r") simp_all
    qed
    show ?thesis
    proof (cases "?s + 1 = length cands")
      case last: True
      with True Cons.prems(6) set have "(r', c', cands') = (?s + 1, ?new, ?cands)"
        by (simp add: Let_def)
      with new all last Cons.prems(2) show ?thesis by auto
    next
      case more: False
      with True Cons.prems(6) set have
        eq: "lcsScan i js (?s + 1) ?new ?cands = (r', c', cands')"
        by (simp add: Let_def)
      have r: "?s + 1 < length ?cands" using True more by simp
      have later: "\<forall>k. ?s + 1 \<le> k \<and> k < length ?cands \<longrightarrow> buffer1index (?cands ! k) < i"
        using Cons.prems(4) sb by (auto simp: nth_list_update)
      from Cons.IH [OF _ r all later new eq] Cons.prems(1) show ?thesis by simp
    qed
  qed
qed

lemma equivalenceClass_members:
  "j \<in> set (equivalenceClass b2 item) \<Longrightarrow> 0 \<le> j \<and> j < int (length b2) \<and> b2 ! nat j = item"
  by (auto simp: equivalenceClass_def)

lemma lcsRow_valid:
  assumes "0 \<le> i" "i < int (length b1)" "cands \<noteq> []"
    and "\<forall>k < length cands. validChain b1 b2 (cands ! k) \<and> buffer1index (cands ! k) < i"
  shows "lcsRow b2 cands (i, b1 ! nat i) \<noteq> [] \<and>
     (\<forall>k < length (lcsRow b2 cands (i, b1 ! nat i)).
        validChain b1 b2 (lcsRow b2 cands (i, b1 ! nat i) ! k) \<and>
        buffer1index (lcsRow b2 cands (i, b1 ! nat i) ! k) < i + 1)"
proof -
  obtain r' c' cands' where
    scan: "lcsScan i (equivalenceClass b2 (b1 ! nat i)) 0 (cands ! 0) cands = (r', c', cands')"
    by (cases "lcsScan i (equivalenceClass b2 (b1 ! nat i)) 0 (cands ! 0) cands") auto
  have "r' \<le> length cands' \<and> cands' \<noteq> [] \<and>
     (\<forall>k < length cands'. validChain b1 b2 (cands' ! k) \<and> buffer1index (cands' ! k) \<le> i) \<and>
     validChain b1 b2 c' \<and> buffer1index c' \<le> i"
  proof (rule lcsScan_valid [OF assms(1,2) _ _ _ _ _ scan])
    show "\<forall>j \<in> set (equivalenceClass b2 (b1 ! nat i)).
        0 \<le> j \<and> j < int (length b2) \<and> b2 ! nat j = b1 ! nat i"
      by (auto dest: equivalenceClass_members)
    show "0 < length cands" using assms(3) by simp
    show "\<forall>k < length cands. validChain b1 b2 (cands ! k) \<and> buffer1index (cands ! k) \<le> i"
      using assms(4) by auto
    show "\<forall>k. 0 \<le> k \<and> k < length cands \<longrightarrow> buffer1index (cands ! k) < i"
      using assms(4) by auto
    show "validChain b1 b2 (cands ! 0) \<and> buffer1index (cands ! 0) \<le> i"
      using assms(3,4) by (cases cands) auto
  qed
  then have "setAt cands' r' c' \<noteq> [] \<and>
     (\<forall>k < length (setAt cands' r' c').
        validChain b1 b2 (setAt cands' r' c' ! k) \<and> buffer1index (setAt cands' r' c' ! k) < i + 1)"
    by (auto simp: setAt_def nth_list_update nth_append)
  with scan show ?thesis by (simp add: lcsRow_def)
qed

lemma zip_rows:
  "zip (map int [0 ..< length xs]) xs = map (\<lambda>k. (int k, xs ! k)) [0 ..< length xs]"
  by (rule nth_equalityI) simp_all

lemma lcsRows_valid:
  "m \<le> length b1 \<Longrightarrow>
     foldl (lcsRow b2) [NULLRESULT] (map (\<lambda>k. (int k, b1 ! k)) [0 ..< m]) \<noteq> [] \<and>
     (\<forall>k < length (foldl (lcsRow b2) [NULLRESULT] (map (\<lambda>k. (int k, b1 ! k)) [0 ..< m])).
        validChain b1 b2 (foldl (lcsRow b2) [NULLRESULT] (map (\<lambda>k. (int k, b1 ! k)) [0 ..< m]) ! k) \<and>
        buffer1index (foldl (lcsRow b2) [NULLRESULT] (map (\<lambda>k. (int k, b1 ! k)) [0 ..< m]) ! k)
          < int m)"
proof (induction m)
  case 0
  then show ?case by (simp add: NULLRESULT_def)
next
  case (Suc m)
  let ?cands = "foldl (lcsRow b2) [NULLRESULT] (map (\<lambda>k. (int k, b1 ! k)) [0 ..< m])"
  from Suc have ih: "?cands \<noteq> []"
    "\<forall>k < length ?cands. validChain b1 b2 (?cands ! k) \<and> buffer1index (?cands ! k) < int m"
    by auto
  have row: "lcsRow b2 ?cands (int m, b1 ! nat (int m)) \<noteq> [] \<and>
     (\<forall>k < length (lcsRow b2 ?cands (int m, b1 ! nat (int m))).
        validChain b1 b2 (lcsRow b2 ?cands (int m, b1 ! nat (int m)) ! k) \<and>
        buffer1index (lcsRow b2 ?cands (int m, b1 ! nat (int m)) ! k) < int m + 1)"
    using Suc.prems ih by (intro lcsRow_valid) auto
  have eq: "foldl (lcsRow b2) [NULLRESULT] (map (\<lambda>k. (int k, b1 ! k)) [0 ..< Suc m])
      = lcsRow b2 ?cands (int m, b1 ! nat (int m))" by simp
  have suc: "int (Suc m) = int m + 1" by simp
  show ?case unfolding eq suc by (rule row)
qed

lemma LCS_valid: "validChain b1 b2 (LCS b1 b2) \<and> buffer1index (LCS b1 b2) < int (length b1)"
proof -
  let ?cands = "foldl (lcsRow b2) [NULLRESULT] (map (\<lambda>k. (int k, b1 ! k)) [0 ..< length b1])"
  have "?cands \<noteq> []" and
    all: "\<forall>k < length ?cands. validChain b1 b2 (?cands ! k) \<and> buffer1index (?cands ! k) < int (length b1)"
    using lcsRows_valid [of "length b1" b1 b2] by simp_all
  then have "last ?cands = ?cands ! (length ?cands - 1)" "length ?cands - 1 < length ?cands"
    by (simp_all add: last_conv_nth)
  with all show ?thesis
    by (simp add: LCS_def zip_rows)
qed

text \<open>A buffer against itself: every position is matched with itself.\<close>

lemma diag_index: "buffer1index (diag k) = int k - 1 \<and> buffer2index (diag k) = int k - 1"
  by (cases k) (simp_all add: NULLRESULT_def)

lemma diag_nth: "k < Suc i \<Longrightarrow> map diag [0 ..< Suc i] ! k = diag k"
  by (metis add_0 nth_map_upt diff_zero)

lemma findSlot_diag_before:
  "0 \<le> j \<Longrightarrow> j < int i \<Longrightarrow> s \<le> Suc i \<Longrightarrow> findSlot j (map diag [0 ..< Suc i]) s = Suc i"
proof (induction "Suc i - s" arbitrary: s)
  case 0
  then show ?case by (simp add: findSlot_end del: upt_Suc)
next
  case (Suc d)
  define cands where "cands = map diag [0 ..< Suc i]"
  have len: "length cands = Suc i" by (simp add: cands_def)
  have nth: "cands ! k = diag k" if "k < Suc i" for k
    using that diag_nth by (simp add: cands_def del: upt_Suc)
  from Suc have s: "s < Suc i" by simp
  have "\<not> (buffer2index (cands ! s) < j \<and>
      (s = length cands - 1 \<or> buffer2index (cands ! (s + 1)) > j))"
  proof (cases "s = i")
    case True
    with Suc.prems show ?thesis using nth [of s] by (simp add: diag_index len)
  next
    case False
    with s have "s + 1 < Suc i" by simp
    with s Suc.prems False show ?thesis using nth [of s] nth [of "s + 1"]
      by (simp add: diag_index len)
  qed
  then have "findSlot j cands s = findSlot j cands (s + 1)"
    using s len by (intro findSlot_skip) simp_all
  moreover have "findSlot j cands (s + 1) = Suc i"
    unfolding cands_def using Suc.hyps(2) Suc.prems s by (intro Suc.hyps(1)) simp_all
  ultimately show ?case by (simp add: cands_def)
qed

lemma findSlot_diag_at:
  "s \<le> i \<Longrightarrow> findSlot (int i) (map diag [0 ..< Suc i]) s = i"
proof (induction "i - s" arbitrary: s)
  case 0
  define cands where "cands = map diag [0 ..< Suc i]"
  have len: "length cands = Suc i" by (simp add: cands_def)
  have nth: "cands ! k = diag k" if "k < Suc i" for k
    using that diag_nth by (simp add: cands_def del: upt_Suc)
  from 0 have "s = i" by simp
  then have "findSlot (int i) cands s = s"
    using nth [of i] len by (intro findSlot_hit) (simp_all add: diag_index)
  with \<open>s = i\<close> show ?case by (simp add: cands_def)
next
  case (Suc d)
  define cands where "cands = map diag [0 ..< Suc i]"
  have len: "length cands = Suc i" by (simp add: cands_def)
  have nth: "cands ! k = diag k" if "k < Suc i" for k
    using that diag_nth by (simp add: cands_def del: upt_Suc)
  from Suc have s: "s < i" by simp
  have "\<not> (buffer2index (cands ! s) < int i \<and>
      (s = length cands - 1 \<or> buffer2index (cands ! (s + 1)) > int i))"
    using s nth [of s] nth [of "s + 1"] by (simp add: diag_index len)
  then have "findSlot (int i) cands s = findSlot (int i) cands (s + 1)"
    using s len by (intro findSlot_skip) simp_all
  moreover have "findSlot (int i) cands (s + 1) = i"
    unfolding cands_def using Suc.hyps(2) s by (intro Suc.hyps(1)) simp_all
  ultimately show ?case by (simp add: cands_def)
qed

lemma lcsScan_diag:
  "\<forall>j \<in> set js1. 0 \<le> j \<and> j < int i \<Longrightarrow>
     lcsScan (int i) (js1 @ int i # js2) 0 NULLRESULT (map diag [0 ..< Suc i])
       = (Suc i, diag (Suc i), map diag [0 ..< Suc i])"
proof (induction js1)
  case Nil
  have nth: "map diag [0 ..< Suc i] ! i = diag i"
    by (rule diag_nth) simp
  have "setAt (map diag [0 ..< Suc i]) 0 NULLRESULT = map diag [0 ..< Suc i]"
    by (simp add: setAt_def upt_conv_Cons del: upt_Suc)
  then show ?case
    using findSlot_diag_at [of 0 i] nth by (simp add: Let_def del: upt_Suc)
next
  case (Cons j js1)
  then have "findSlot j (map diag [0 ..< Suc i]) 0 = Suc i"
    by (intro findSlot_diag_before) auto
  with Cons show ?case by (simp del: upt_Suc)
qed

lemma equivalenceClass_self:
  assumes "i < length xs"
  shows "\<exists>js1 js2. equivalenceClass xs (xs ! i) = js1 @ int i # js2 \<and>
     (\<forall>j \<in> set js1. 0 \<le> j \<and> j < int i)"
proof -
  have "[0 ..< length xs] = [0 ..< i] @ i # [Suc i ..< length xs]"
    using assms by (metis upt_conv_Cons upt_add_eq_append le_add_diff_inverse less_imp_le zero_le)
  then have "equivalenceClass xs (xs ! i)
      = map int (filter (\<lambda>j. xs ! j = xs ! i) [0 ..< i]) @ int i #
        map int (filter (\<lambda>j. xs ! j = xs ! i) [Suc i ..< length xs])"
    by (simp add: equivalenceClass_def)
  moreover have "\<forall>j \<in> set (map int (filter (\<lambda>j. xs ! j = xs ! i) [0 ..< i])). 0 \<le> j \<and> j < int i"
    by auto
  ultimately show ?thesis by blast
qed

lemma lcsRow_diag:
  "i < length xs \<Longrightarrow>
     lcsRow xs (map diag [0 ..< Suc i]) (int i, xs ! i) = map diag [0 ..< Suc (Suc i)]"
proof -
  assume "i < length xs"
  then obtain js1 js2 where
    js: "equivalenceClass xs (xs ! i) = js1 @ int i # js2" "\<forall>j \<in> set js1. 0 \<le> j \<and> j < int i"
    using equivalenceClass_self by blast
  have zero: "map diag [0 ..< Suc i] ! 0 = NULLRESULT"
    by (simp add: upt_conv_Cons del: upt_Suc)
  show ?thesis
    using lcsScan_diag [OF js(2), of js2]
    by (simp add: lcsRow_def js(1) zero setAt_def del: upt_Suc) simp
qed

lemma lcsRows_diag:
  "m \<le> length xs \<Longrightarrow>
     foldl (lcsRow xs) [NULLRESULT] (map (\<lambda>k. (int k, xs ! k)) [0 ..< m]) = map diag [0 ..< Suc m]"
proof (induction m)
  case 0
  then show ?case by simp
next
  case (Suc m)
  then have "foldl (lcsRow xs) [NULLRESULT] (map (\<lambda>k. (int k, xs ! k)) [0 ..< Suc m])
      = lcsRow xs (map diag [0 ..< Suc m]) (int m, xs ! m)" by simp
  also have "\<dots> = map diag [0 ..< Suc (Suc m)]"
    using Suc.prems by (intro lcsRow_diag) simp
  finally show ?case .
qed

lemma LCS_self: "LCS xs xs = diag (length xs)"
  using lcsRows_diag [of "length xs" xs] by (simp add: LCS_def zip_rows)

lemma diffWalk_diag: "diffWalk b1 b2 (int n) (int n) (Some (diag n)) = []"
  by (induction n) (simp_all add: NULLRESULT_def)

lemma diffIndices_self: "diffIndices xs xs = []"
  by (simp add: diffIndices_def LCS_self diffWalk_diag)

section \<open>The line merge: hunks and regions\<close>

lemma slice_range:
  "0 \<le> s \<Longrightarrow> s \<le> e \<Longrightarrow> e \<le> int (length xs) \<Longrightarrow>
     slice xs s e = take (nat (e - s)) (drop (nat s) xs)"
  by (simp add: slice_def Let_def min_def)

lemma slice_empty: "0 \<le> s \<Longrightarrow> slice xs s s = []"
  by (simp add: slice_def Let_def)

lemma slice_snoc:
  assumes "0 \<le> s" "s \<le> i" "i < int (length xs)"
  shows "slice xs s (i + 1) = slice xs s i @ [xs ! nat i]"
proof -
  have "slice xs s (i + 1) = take (nat (i + 1 - s)) (drop (nat s) xs)"
    using assms by (intro slice_range) simp_all
  also have "nat (i + 1 - s) = Suc (nat (i - s))"
    using assms by simp
  also have "take (Suc (nat (i - s))) (drop (nat s) xs)
      = take (nat (i - s)) (drop (nat s) xs) @ [drop (nat s) xs ! nat (i - s)]"
    using assms by (intro take_Suc_conv_app_nth) simp
  also have "drop (nat s) xs ! nat (i - s) = xs ! nat i"
    using assms by (simp add: nat_diff_distrib)
  also have "take (nat (i - s)) (drop (nat s) xs) = slice xs s i"
    using assms by (subst slice_range) simp_all
  finally show ?thesis .
qed

lemma take_slice:
  assumes "0 \<le> j" "j \<le> t" "t \<le> int (length xs)"
  shows "take (nat j) xs @ slice xs j t = take (nat t) xs"
proof -
  have "slice xs j t = take (nat (t - j)) (drop (nat j) xs)"
    using assms by (intro slice_range) simp_all
  moreover have "nat t = nat j + nat (t - j)"
    using assms by simp
  ultimately show ?thesis
    by (simp add: take_add)
qed

lemma take_snoc:
  "0 \<le> j \<Longrightarrow> j < int (length xs) \<Longrightarrow> take (nat j) xs @ [xs ! nat j] = take (nat (j + 1)) xs"
proof -
  assume "0 \<le> j" "j < int (length xs)"
  then have "nat (j + 1) = Suc (nat j)" "nat j < length xs" by simp_all
  then show ?thesis by (simp add: take_Suc_conv_app_nth)
qed

text \<open>Hunks that end before the next ones start are grouped on their own.\<close>

lemma pullHunks_bound:
  "pullHunks e rs hs = (e', rs', rest) \<Longrightarrow> e \<le> m \<Longrightarrow>
   \<forall>x \<in> set hs. oStart x + oLength x \<le> m \<Longrightarrow> e' \<le> m \<and> set rest \<subseteq> set hs"
  by (induction e rs hs rule: pullHunks.induct) (auto split: if_splits)

lemma pullHunks_append:
  "\<forall>k \<in> set ks. e < oStart k \<Longrightarrow>
   \<forall>x \<in> set hs. \<forall>k \<in> set ks. oStart x + oLength x < oStart k \<Longrightarrow>
     pullHunks e rs (hs @ ks) =
       (case pullHunks e rs hs of (e', rs', rest) \<Rightarrow> (e', rs', rest @ ks))"
proof (induction e rs hs rule: pullHunks.induct)
  case (1 regionEnd regionHunks)
  then show ?case by (cases ks) auto
next
  case (2 regionEnd regionHunks nextHunk hunks)
  then show ?case by auto
qed

lemma regionLoop_append:
  "\<forall>x \<in> set hs. \<forall>k \<in> set ks. oStart x + oLength x < oStart k \<Longrightarrow>
     regionLoop a o' b (hs @ ks) st = regionLoop a o' b ks (regionLoop a o' b hs st)"
proof (induction a o' b hs st rule: regionLoop.induct)
  case (1 a o' b st)
  then show ?case by (simp add: regionLoop.simps)
next
  case (2 a o' b hunk hunks st)
  obtain regionEnd regionHunks rest where
    p: "pullHunks (oStart hunk + oLength hunk) [hunk] hunks = (regionEnd, regionHunks, rest)"
    by (cases "pullHunks (oStart hunk + oLength hunk) [hunk] hunks") auto
  obtain results currOffset where
    adv: "advanceTo o' (oStart hunk) st = (results, currOffset)"
    by (cases "advanceTo o' (oStart hunk) st") auto
  have p': "pullHunks (oStart hunk + oLength hunk) [hunk] (hunks @ ks)
      = (regionEnd, regionHunks, rest @ ks)"
    using pullHunks_append [of ks "oStart hunk + oLength hunk" hunks "[hunk]"] "2.prems" p
    by simp
  have sub: "set rest \<subseteq> set hunks"
  proof (cases hunks)
    case Nil
    with p show ?thesis by simp
  next
    case (Cons h hs')
    define m where "m = Max (insert (oStart hunk + oLength hunk)
        ((\<lambda>x. oStart x + oLength x) ` set hunks))"
    have "oStart hunk + oLength hunk \<le> m" "\<forall>x \<in> set hunks. oStart x + oLength x \<le> m"
      by (simp_all add: m_def)
    with p pullHunks_bound show ?thesis by blast
  qed
  have sep: "\<forall>x \<in> set rest. \<forall>k \<in> set ks. oStart x + oLength x < oStart k"
    using sub "2.prems" by auto
  let ?st' = "(if length regionHunks = 1 then
             (if abLength hunk > 0 then
                results @ [Stable (Some (ab hunk)) (abStart hunk) (abLength hunk)
                  (slice (if ab hunk = SideA then a else b) (abStart hunk)
                     (abStart hunk + abLength hunk))]
              else results)
           else results @ [conflictRegion a o' b (oStart hunk) regionEnd regionHunks],
           regionEnd)"
  have "regionLoop a o' b ((hunk # hunks) @ ks) st = regionLoop a o' b (rest @ ks) ?st'"
    by (simp add: regionLoop.simps p' adv Let_def)
  also have "\<dots> = regionLoop a o' b ks (regionLoop a o' b rest ?st')"
    using "2.IH" [OF refl p [symmetric] refl adv [symmetric] sep] .
  also have "regionLoop a o' b rest ?st' = regionLoop a o' b (hunk # hunks) st"
    by (simp add: regionLoop.simps p adv Let_def)
  finally show ?case .
qed

text \<open>
  The hunks between the matches of a valid chain lie inside the buffers, and each
  starts after the one before has ended and a match has followed.
\<close>

lemma diffWalk_hunks:
  "validChain b1 b2 c \<Longrightarrow> buffer1index c < t1 \<Longrightarrow> buffer2index c < t2 \<Longrightarrow>
     (\<forall>h \<in> set (diffWalk b1 b2 t1 t2 (Some c)).
        0 \<le> fst (buffer1 h) \<and> 0 \<le> snd (buffer1 h) \<and> fst (buffer1 h) + snd (buffer1 h) \<le> t1 \<and>
        0 \<le> fst (buffer2 h) \<and> 0 \<le> snd (buffer2 h) \<and> fst (buffer2 h) + snd (buffer2 h) \<le> t2 \<and>
        (snd (buffer1 h) \<noteq> 0 \<or> snd (buffer2 h) \<noteq> 0)) \<and>
     sorted_wrt (\<lambda>x y. fst (buffer1 x) + snd (buffer1 x) < fst (buffer1 y))
       (rev (diffWalk b1 b2 t1 t2 (Some c)))"
proof (induction b1 b2 c arbitrary: t1 t2 rule: validChain.induct)
  case (1 b1 b2 i j)
  then show ?case by auto
next
  case (2 b1 b2 i j c)
  then have ih: "\<forall>h \<in> set (diffWalk b1 b2 i j (Some c)).
        0 \<le> fst (buffer1 h) \<and> 0 \<le> snd (buffer1 h) \<and> fst (buffer1 h) + snd (buffer1 h) \<le> i \<and>
        0 \<le> fst (buffer2 h) \<and> 0 \<le> snd (buffer2 h) \<and> fst (buffer2 h) + snd (buffer2 h) \<le> j \<and>
        (snd (buffer1 h) \<noteq> 0 \<or> snd (buffer2 h) \<noteq> 0)"
    and sorted: "sorted_wrt (\<lambda>x y. fst (buffer1 x) + snd (buffer1 x) < fst (buffer1 y))
       (rev (diffWalk b1 b2 i j (Some c)))"
    by auto
  from "2.prems" have lt: "i < t1" "j < t2" "0 \<le> i" "0 \<le> j" by auto
  show ?case
  proof (intro conjI)
    show "\<forall>h \<in> set (diffWalk b1 b2 t1 t2 (Some (Candidate i j (Some c)))).
        0 \<le> fst (buffer1 h) \<and> 0 \<le> snd (buffer1 h) \<and> fst (buffer1 h) + snd (buffer1 h) \<le> t1 \<and>
        0 \<le> fst (buffer2 h) \<and> 0 \<le> snd (buffer2 h) \<and> fst (buffer2 h) + snd (buffer2 h) \<le> t2 \<and>
        (snd (buffer1 h) \<noteq> 0 \<or> snd (buffer2 h) \<noteq> 0)"
      using ih lt by (auto simp: Let_def)
    show "sorted_wrt (\<lambda>x y. fst (buffer1 x) + snd (buffer1 x) < fst (buffer1 y))
       (rev (diffWalk b1 b2 t1 t2 (Some (Candidate i j (Some c)))))"
      using ih sorted lt by (auto simp: Let_def sorted_wrt_append)
  qed
qed

text \<open>
  The regions of hunks that come from one alignment of the base with a side \<open>b\<close>, when
  every hunk is turned into a group of hunks (\<open>tag\<close>) that the region loop merges into
  the side's lines: the regions taken in order rebuild the side.
\<close>

lemma regionLoop_rebuild:
  fixes tag :: "'a diffHunk \<Rightarrow> hunk list"
  assumes step: "\<And>g results cur.
      list_all benign results \<Longrightarrow> 0 \<le> cur \<Longrightarrow> cur \<le> fst (buffer1 g) \<Longrightarrow>
      0 \<le> snd (buffer1 g) \<Longrightarrow> fst (buffer1 g) + snd (buffer1 g) \<le> int (length o') \<Longrightarrow>
      0 \<le> fst (buffer2 g) \<Longrightarrow> 0 \<le> snd (buffer2 g) \<Longrightarrow>
      fst (buffer2 g) + snd (buffer2 g) \<le> int (length b) \<Longrightarrow>
      \<exists>results'. regionLoop a o' b (tag g) (results, cur)
                    = (results', fst (buffer1 g) + snd (buffer1 g)) \<and>
        list_all benign results' \<and>
        concat (map okLines results') = concat (map okLines results) @
          slice o' cur (fst (buffer1 g)) @
          slice b (fst (buffer2 g)) (fst (buffer2 g) + snd (buffer2 g))"
    and tag: "\<And>g x. x \<in> set (tag g) \<Longrightarrow>
      oStart x = fst (buffer1 g) \<and> oLength x = snd (buffer1 g)"
  shows "validChain o' b c \<Longrightarrow> buffer1index c < t1 \<Longrightarrow> t1 \<le> int (length o') \<Longrightarrow>
     buffer2index c < t2 \<Longrightarrow> t2 \<le> int (length b) \<Longrightarrow>
     \<exists>results cur.
       regionLoop a o' b (concat (map tag (rev (diffWalk o' b t1 t2 (Some c))))) ([], 0)
         = (results, cur) \<and>
       list_all benign results \<and> 0 \<le> cur \<and> cur \<le> t1 \<and>
       concat (map okLines results) @ slice o' cur t1 = take (nat t2) b"
proof (induction c arbitrary: t1 t2)
  case (Candidate i j ch)
  note prems = Candidate.prems
  show ?case
  proof (cases ch)
  case None
  with prems have ij: "i = -1" "j = -1" by simp_all
  show ?thesis
  proof (cases "t1 \<noteq> 0 \<or> t2 \<noteq> 0")
    case False
    then have "rev (diffWalk o' b t1 t2 (Some (Candidate i j ch))) = []"
      using ij None by (simp add: Let_def)
    with False show ?thesis
      by (simp add: regionLoop.simps slice_empty)
  next
    case True
    let ?g = "\<lparr>buffer1 = (0, t1), buffer1Content = slice o' 0 t1,
              buffer2 = (0, t2), buffer2Content = slice b 0 t2\<rparr>"
    have walk: "rev (diffWalk o' b t1 t2 (Some (Candidate i j ch))) = [?g]"
      using True ij None by (simp add: Let_def)
    have "\<exists>results'. regionLoop a o' b (tag ?g) ([], 0)
                    = (results', fst (buffer1 ?g) + snd (buffer1 ?g)) \<and>
        list_all benign results' \<and>
        concat (map okLines results') = concat (map okLines []) @
          slice o' 0 (fst (buffer1 ?g)) @
          slice b (fst (buffer2 ?g)) (fst (buffer2 ?g) + snd (buffer2 ?g))"
      by (rule step) (use prems ij None in simp_all)
    then obtain results' where
      r: "regionLoop a o' b (tag ?g) ([], 0) = (results', t1)"
        "list_all benign results'"
        "concat (map okLines results') = slice o' 0 0 @ slice b 0 t2"
      by auto
    have "slice b 0 t2 = take (nat t2) b"
      using prems ij None take_slice [of 0 t2 b] by simp
    with r prems ij show ?thesis
      unfolding walk by (simp add: slice_empty)
  qed
next
  case (Some c)
  from prems(1) Some have v: "0 \<le> i" "i < int (length o')" "0 \<le> j" "j < int (length b)"
    "o' ! nat i = b ! nat j" "buffer1index c < i" "buffer2index c < j" "validChain o' b c"
    by simp_all
  let ?hs = "rev (diffWalk o' b i j (Some c))"
  obtain results cur where
    ih: "regionLoop a o' b (concat (map tag ?hs)) ([], 0) = (results, cur)"
      "list_all benign results" "0 \<le> cur" "cur \<le> i"
      "concat (map okLines results) @ slice o' cur i = take (nat j) b"
    using Candidate.IH [of c i j] Some v by auto
  have upto: "concat (map okLines results) @ slice o' cur (i + 1) = take (nat (j + 1)) b"
  proof -
    have "slice o' cur (i + 1) = slice o' cur i @ [o' ! nat i]"
      using ih(3,4) v by (intro slice_snoc) simp_all
    then have "concat (map okLines results) @ slice o' cur (i + 1)
        = take (nat j) b @ [b ! nat j]"
      using ih(5) v(5) by simp
    also have "\<dots> = take (nat (j + 1)) b"
      using v by (intro take_snoc) simp_all
    finally show ?thesis .
  qed
  show ?thesis
  proof (cases "t1 - i - 1 \<noteq> 0 \<or> t2 - j - 1 \<noteq> 0")
    case False
    then have t: "t1 = i + 1" "t2 = j + 1" by simp_all
    have walk: "rev (diffWalk o' b t1 t2 (Some (Candidate i j ch))) = ?hs"
      using False Some by (simp add: Let_def)
    from ih upto t show ?thesis
      unfolding walk by simp
  next
    case True
    let ?g = "\<lparr>buffer1 = (i + 1, t1 - i - 1), buffer1Content = slice o' (i + 1) (i + 1 + (t1 - i - 1)),
              buffer2 = (j + 1, t2 - j - 1), buffer2Content = slice b (j + 1) (j + 1 + (t2 - j - 1))\<rparr>"
    have walk: "rev (diffWalk o' b t1 t2 (Some (Candidate i j ch))) = ?hs @ [?g]"
      using True Some by (simp add: Let_def)
    have ends: "\<forall>h \<in> set ?hs. fst (buffer1 h) + snd (buffer1 h) \<le> i"
      using diffWalk_hunks [OF v(8) v(6) v(7)] by simp
    have sep: "\<forall>x \<in> set (concat (map tag ?hs)). \<forall>k \<in> set (tag ?g).
        oStart x + oLength x < oStart k"
    proof (intro ballI)
      fix x k assume "x \<in> set (concat (map tag ?hs))" "k \<in> set (tag ?g)"
      then obtain h where "h \<in> set ?hs" "x \<in> set (tag h)" by auto
      with ends tag [of x h] tag [of k ?g] \<open>k \<in> set (tag ?g)\<close>
      show "oStart x + oLength x < oStart k" by auto
    qed
    have app: "regionLoop a o' b (concat (map tag (?hs @ [?g]))) ([], 0)
        = regionLoop a o' b (tag ?g) (results, cur)"
      using regionLoop_append [OF sep, of a o' b "([], 0)"] ih(1) by simp
    have "\<exists>results'. regionLoop a o' b (tag ?g) (results, cur)
                    = (results', fst (buffer1 ?g) + snd (buffer1 ?g)) \<and>
        list_all benign results' \<and>
        concat (map okLines results') = concat (map okLines results) @
          slice o' cur (fst (buffer1 ?g)) @
          slice b (fst (buffer2 ?g)) (fst (buffer2 ?g) + snd (buffer2 ?g))"
      by (rule step) (use ih prems v in simp_all)
    then obtain results' where
      r: "regionLoop a o' b (tag ?g) (results, cur) = (results', t1)"
        "list_all benign results'"
        "concat (map okLines results') = concat (map okLines results) @
           slice o' cur (i + 1) @ slice b (j + 1) t2"
      by auto
    have "take (nat (j + 1)) b @ slice b (j + 1) t2 = take (nat t2) b"
      using prems v by (intro take_slice) simp_all
    then have all: "concat (map okLines results) @ slice o' cur (i + 1) @ slice b (j + 1) t2
        = take (nat t2) b"
      using upto by (simp flip: append_assoc)
    show ?thesis
      unfolding walk app using r all prems v by (simp add: slice_empty)
  qed
  qed
qed

text \<open>The hunks of one side alone: each is a region of its own, taken from that side.\<close>

lemma regionLoop_single:
  assumes "list_all benign results" "0 \<le> cur" "cur \<le> fst (buffer1 g)"
    "0 \<le> snd (buffer1 g)" "fst (buffer1 g) + snd (buffer1 g) \<le> int (length o')"
    "0 \<le> fst (buffer2 g)" "0 \<le> snd (buffer2 g)"
    "fst (buffer2 g) + snd (buffer2 g) \<le> int (length b)"
  shows "\<exists>results'. regionLoop a o' b [addHunk SideB g] (results, cur)
                    = (results', fst (buffer1 g) + snd (buffer1 g)) \<and>
        list_all benign results' \<and>
        concat (map okLines results') = concat (map okLines results) @
          slice o' cur (fst (buffer1 g)) @
          slice b (fst (buffer2 g)) (fst (buffer2 g) + snd (buffer2 g))"
proof -
  obtain s l where b1: "buffer1 g = (s, l)" by (cases "buffer1 g") auto
  obtain t m where b2: "buffer2 g = (t, m)" by (cases "buffer2 g") auto
  have e1: "slice o' cur s = []" if "\<not> cur < s"
    using that assms(2,3) b1 by (simp add: slice_empty)
  have e2: "slice b t (t + m) = []" if "\<not> 0 < m"
    using that assms(6,7) b2 by (simp add: slice_empty)
  show ?thesis
    using assms(1) e1 e2
    by (simp add: regionLoop.simps addHunk_def advanceTo_def b1 b2 Let_def)
qed

text \<open>
  Both sides with the same hunk: the two hunks form one region, whose sides agree.
\<close>

lemma isFalseConflict_same: "isFalseConflict xs xs"
  by (simp add: isFalseConflict_def list_all2_refl)

lemma regionLoop_pair:
  assumes "list_all benign results" "0 \<le> cur" "cur \<le> fst (buffer1 g)"
    "0 \<le> snd (buffer1 g)" "fst (buffer1 g) + snd (buffer1 g) \<le> int (length o')"
    "0 \<le> fst (buffer2 g)" "0 \<le> snd (buffer2 g)"
    "fst (buffer2 g) + snd (buffer2 g) \<le> int (length b)"
  shows "\<exists>results'. regionLoop b o' b [addHunk SideA g, addHunk SideB g] (results, cur)
                    = (results', fst (buffer1 g) + snd (buffer1 g)) \<and>
        list_all benign results' \<and>
        concat (map okLines results') = concat (map okLines results) @
          slice o' cur (fst (buffer1 g)) @
          slice b (fst (buffer2 g)) (fst (buffer2 g) + snd (buffer2 g))"
proof -
  obtain s l where b1: "buffer1 g = (s, l)" by (cases "buffer1 g") auto
  obtain t m where b2: "buffer2 g = (t, m)" by (cases "buffer2 g") auto
  have e1: "slice o' cur s = []" if "\<not> cur < s"
    using that assms(2,3) b1 by (simp add: slice_empty)
  have bounds: "0 \<le> l" "s + l \<le> int (length o')" "0 \<le> t" "0 \<le> m" "t + m \<le> int (length b)"
    "0 \<le> s"
    using assms b1 b2 by simp_all
  have mm: "min t (int (length b)) = t" "max (t + m) (-1) = t + m"
    "min s (int (length o')) = s" "max (s + l) (-1) = s + l" "max (s + l) (s + l) = s + l"
    using bounds by simp_all
  have region: "conflictRegion b o' b s (s + l) [addHunk SideA g, addHunk SideB g]
      = Unstable t m (slice b t (t + m)) s l (slice o' s (s + l)) t m (slice b t (t + m))"
    using bounds
    by (simp add: conflictRegion_def regionBounds_def addHunk_def b1 b2 Let_def min_def max_def)
  have pull: "pullHunks (s + l) [addHunk SideA g] [addHunk SideB g]
      = (s + l, [addHunk SideA g, addHunk SideB g], [])"
    using bounds by (simp add: addHunk_def b1 b2)
  have "regionLoop b o' b [addHunk SideA g, addHunk SideB g] (results, cur)
      = (fst (advanceTo o' s (results, cur)) @
           [Unstable t m (slice b t (t + m)) s l (slice o' s (s + l)) t m (slice b t (t + m))],
         s + l)"
    using pull region
    by (subst regionLoop.simps)
       (simp add: addHunk_def b1 b2 Let_def regionLoop.simps split: prod.splits)
  then show ?thesis
    using assms(1) e1 by (simp add: advanceTo_def b1 b2 isFalseConflict_same)
qed

text \<open>Ordering the hunks by their start in the base.\<close>

lemma validChain_index:
  assumes "validChain b1 b2 c"
  shows "buffer1index c < int (length b1) \<and> buffer2index c < int (length b2)"
proof (cases c)
  case (Candidate i j ch)
  with assms show ?thesis by (cases ch) auto
qed

lemma diffIndices_hunks:
  "(\<forall>h \<in> set (diffIndices o' b). 0 \<le> snd (buffer1 h)) \<and>
   sorted_wrt (\<lambda>x y. fst (buffer1 x) + snd (buffer1 x) < fst (buffer1 y)) (diffIndices o' b)"
  using diffWalk_hunks [of o' b "LCS o' b" "int (length o')" "int (length b)"]
    LCS_valid [of o' b] validChain_index [of o' b "LCS o' b"]
  by (simp add: diffIndices_def)

lemma diffIndices_starts:
  "sorted_wrt (\<lambda>x y. fst (buffer1 x) < fst (buffer1 y)) (diffIndices o' b)"
proof -
  have "sorted_wrt (\<lambda>x y. fst (buffer1 x) + snd (buffer1 x) < fst (buffer1 y)) (diffIndices o' b)"
    using diffIndices_hunks by blast
  then show ?thesis
  proof (rule sorted_wrt_mono_rel [rotated])
    fix x y assume "x \<in> set (diffIndices o' b)"
      "fst (buffer1 x) + snd (buffer1 x) < fst (buffer1 y)"
    then show "fst (buffer1 x) < fst (buffer1 y)"
      using diffIndices_hunks [of o' b] by force
  qed
qed

lemma sort_one_side:
  "sort_key oStart (map (addHunk s) (diffIndices o' b)) = map (addHunk s) (diffIndices o' b)"
proof (rule sort_key_id_if_sorted)
  have "sorted_wrt (\<lambda>x y. fst (buffer1 x) \<le> fst (buffer1 y)) (diffIndices o' b)"
    using diffIndices_starts [of o' b]
    by (rule sorted_wrt_mono_rel [rotated]) simp
  then show "sorted (map oStart (map (addHunk s) (diffIndices o' b)))"
    by (simp add: sorted_map addHunk_def comp_def sorted_wrt_map)
qed

lemma insort_key_after:
  "\<forall>p \<in> set pre. f p < f x \<Longrightarrow> insort_key f x (pre @ rest) = pre @ insort_key f x rest"
  by (induction pre) auto

lemma insort_pairs:
  "sorted_wrt (\<lambda>x y. fst (buffer1 x) < fst (buffer1 y)) hs \<Longrightarrow>
   \<forall>p \<in> set pre. \<forall>h \<in> set hs. oStart p < fst (buffer1 h) \<Longrightarrow>
     foldr (insort_key oStart) (map (addHunk SideA) hs) (pre @ map (addHunk SideB) hs)
       = pre @ concat (map (\<lambda>g. [addHunk SideA g, addHunk SideB g]) hs)"
proof (induction hs arbitrary: pre)
  case Nil
  then show ?case by simp
next
  case (Cons g gs)
  have "foldr (insort_key oStart) (map (addHunk SideA) gs)
          ((pre @ [addHunk SideB g]) @ map (addHunk SideB) gs)
      = (pre @ [addHunk SideB g]) @ concat (map (\<lambda>g. [addHunk SideA g, addHunk SideB g]) gs)"
    using Cons.prems by (intro Cons.IH) (auto simp: addHunk_def)
  moreover have "insort_key oStart (addHunk SideA g)
        (pre @ addHunk SideB g # concat (map (\<lambda>g. [addHunk SideA g, addHunk SideB g]) gs))
      = pre @ addHunk SideA g # addHunk SideB g #
          concat (map (\<lambda>g. [addHunk SideA g, addHunk SideB g]) gs)"
    using Cons.prems(2) by (subst insort_key_after) (auto simp: addHunk_def)
  ultimately show ?case by simp
qed

lemma sort_both_sides:
  "sort_key oStart (map (addHunk SideA) (diffIndices o' b) @ map (addHunk SideB) (diffIndices o' b))
     = concat (map (\<lambda>g. [addHunk SideA g, addHunk SideB g]) (diffIndices o' b))"
proof -
  have "sort_key oStart
      (map (addHunk SideA) (diffIndices o' b) @ map (addHunk SideB) (diffIndices o' b))
    = foldr (insort_key oStart) (map (addHunk SideA) (diffIndices o' b))
        (sort_key oStart (map (addHunk SideB) (diffIndices o' b)))"
    by (simp add: sort_key_def)
  also have "\<dots> = foldr (insort_key oStart) (map (addHunk SideA) (diffIndices o' b))
        ([] @ map (addHunk SideB) (diffIndices o' b))"
    by (simp add: sort_one_side)
  also have "\<dots> = [] @ concat (map (\<lambda>g. [addHunk SideA g, addHunk SideB g]) (diffIndices o' b))"
    using diffIndices_starts [of o' b] by (intro insort_pairs) simp_all
  finally show ?thesis by simp
qed

text \<open>The regions of a merge in which the sides do not differ rebuild \<open>theirs\<close>.\<close>

lemma regions_rebuild:
  fixes tag :: "'a diffHunk \<Rightarrow> hunk list"
  assumes step: "\<And>g results cur.
      list_all benign results \<Longrightarrow> 0 \<le> cur \<Longrightarrow> cur \<le> fst (buffer1 g) \<Longrightarrow>
      0 \<le> snd (buffer1 g) \<Longrightarrow> fst (buffer1 g) + snd (buffer1 g) \<le> int (length o') \<Longrightarrow>
      0 \<le> fst (buffer2 g) \<Longrightarrow> 0 \<le> snd (buffer2 g) \<Longrightarrow>
      fst (buffer2 g) + snd (buffer2 g) \<le> int (length b) \<Longrightarrow>
      \<exists>results'. regionLoop a o' b (tag g) (results, cur)
                    = (results', fst (buffer1 g) + snd (buffer1 g)) \<and>
        list_all benign results' \<and>
        concat (map okLines results') = concat (map okLines results) @
          slice o' cur (fst (buffer1 g)) @
          slice b (fst (buffer2 g)) (fst (buffer2 g) + snd (buffer2 g))"
    and tag: "\<And>g x. x \<in> set (tag g) \<Longrightarrow>
      oStart x = fst (buffer1 g) \<and> oLength x = snd (buffer1 g)"
  shows "list_all benign (fst (advanceTo o' (int (length o'))
            (regionLoop a o' b (concat (map tag (diffIndices o' b))) ([], 0)))) \<and>
         concat (map okLines (fst (advanceTo o' (int (length o'))
            (regionLoop a o' b (concat (map tag (diffIndices o' b))) ([], 0))))) = b"
proof -
  have "\<exists>results cur.
       regionLoop a o' b (concat (map tag (rev (diffWalk o' b (int (length o')) (int (length b))
          (Some (LCS o' b)))))) ([], 0) = (results, cur) \<and>
       list_all benign results \<and> 0 \<le> cur \<and> cur \<le> int (length o') \<and>
       concat (map okLines results) @ slice o' cur (int (length o')) = take (nat (int (length b))) b"
    using LCS_valid [of o' b] validChain_index [of o' b "LCS o' b"]
    by (intro regionLoop_rebuild step tag) simp_all
  then obtain results cur where
    r: "regionLoop a o' b (concat (map tag (diffIndices o' b))) ([], 0) = (results, cur)"
      "list_all benign results" "0 \<le> cur" "cur \<le> int (length o')"
      "concat (map okLines results) @ slice o' cur (int (length o')) = b"
    by (auto simp: diffIndices_def)
  show ?thesis
  proof (cases "cur < int (length o')")
    case True
    with r show ?thesis by (simp add: advanceTo_def)
  next
    case False
    with r(4) have "cur = int (length o')" by simp
    with r show ?thesis by (simp add: advanceTo_def slice_empty)
  qed
qed

lemma regions_ours_is_base:
  "list_all benign (diff3MergeRegions o' o' b) \<and>
   concat (map okLines (diff3MergeRegions o' o' b)) = b"
proof -
  have "list_all benign (fst (advanceTo o' (int (length o'))
            (regionLoop o' o' b (concat (map (\<lambda>g. [addHunk SideB g]) (diffIndices o' b))) ([], 0)))) \<and>
         concat (map okLines (fst (advanceTo o' (int (length o'))
            (regionLoop o' o' b (concat (map (\<lambda>g. [addHunk SideB g]) (diffIndices o' b))) ([], 0))))) = b"
  proof (rule regions_rebuild, goal_cases)
    case (1 g results cur)
    then show ?case by (intro regionLoop_single)
  next
    case (2 g x)
    then show ?case by (auto simp: addHunk_def)
  qed
  moreover have "concat (map (\<lambda>g. [addHunk SideB g]) (diffIndices o' b))
      = map (addHunk SideB) (diffIndices o' b)"
    by (induction "diffIndices o' b") auto
  ultimately show ?thesis
    by (simp add: diff3MergeRegions_def diffIndices_self sort_one_side)
qed

lemma regions_ours_is_theirs:
  "list_all benign (diff3MergeRegions b o' b) \<and>
   concat (map okLines (diff3MergeRegions b o' b)) = b"
proof -
  have "list_all benign (fst (advanceTo o' (int (length o'))
            (regionLoop b o' b (concat (map (\<lambda>g. [addHunk SideA g, addHunk SideB g])
               (diffIndices o' b))) ([], 0)))) \<and>
         concat (map okLines (fst (advanceTo o' (int (length o'))
            (regionLoop b o' b (concat (map (\<lambda>g. [addHunk SideA g, addHunk SideB g])
               (diffIndices o' b))) ([], 0))))) = b"
  proof (rule regions_rebuild, goal_cases)
    case (1 g results cur)
    then show ?case by (intro regionLoop_pair)
  next
    case (2 g x)
    then show ?case by (auto simp: addHunk_def)
  qed
  then show ?thesis
    by (simp add: diff3MergeRegions_def sort_both_sides)
qed

lemma mergeRegion_benign:
  "list_all benign rs \<Longrightarrow>
     foldl mergeRegion (results, okBuffer) rs = (results, okBuffer @ concat (map okLines rs))"
proof (induction rs arbitrary: okBuffer)
  case Nil
  then show ?case by simp
next
  case (Cons r rs)
  then show ?case by (cases r) simp_all
qed

lemma diff3Merge_benign:
  "list_all benign (diff3MergeRegions a o' b) \<Longrightarrow>
   concat (map okLines (diff3MergeRegions a o' b)) = b \<Longrightarrow> b \<noteq> [] \<Longrightarrow>
     diff3Merge a o' b = [Ok b]"
  by (simp add: diff3Merge_def mergeRegion_benign flushOk_def)

lemma joinLines_splitLines: "joinLines (splitLines s) = s"
proof (induction s)
  case Nil
  then show ?case by simp
next
  case (Cons c cs)
  obtain l ls where r: "splitLines cs = l # ls"
    using splitLines_nonempty [of cs] by (cases "splitLines cs") auto
  with Cons show ?case by (cases ls) auto
qed

lemma threeWayMerge_clean:
  "diff3Merge (splitLines ours') (splitLines base) (splitLines theirs') = [Ok (splitLines theirs')] \<Longrightarrow>
     threeWayMerge base ours' theirs' labels = \<lparr>success = True, content = theirs', conflictCount = 0\<rparr>"
  by (simp add: threeWayMerge_def joinLines_splitLines)

text \<open>
  C3. When ours equals base, so that only theirs changed, \<open>threeWayMerge\<close> returns the
  content of theirs verbatim, reports no conflict and succeeds, whatever the labels.
\<close>

theorem C3_only_theirs_changed:
  "ours' = base \<Longrightarrow>
     threeWayMerge base ours' theirs' labels
       = \<lparr>success = True, content = theirs', conflictCount = 0\<rparr>"
  using regions_ours_is_base [of "splitLines base" "splitLines theirs'"]
    splitLines_nonempty [of theirs']
  by (intro threeWayMerge_clean diff3Merge_benign) simp_all

theorem C3_only_theirs_changed_witness:
  "threeWayMerge (''a'' @ [CHR 0x0A] @ ''b'' @ [CHR 0x0A] @ ''c'')
      (''a'' @ [CHR 0x0A] @ ''b'' @ [CHR 0x0A] @ ''c'')
      (''a'' @ [CHR 0x0A] @ ''B'' @ [CHR 0x0A] @ ''c'' @ [CHR 0x0A] @ ''d'') None
    = \<lparr>success = True,
       content = ''a'' @ [CHR 0x0A] @ ''B'' @ [CHR 0x0A] @ ''c'' @ [CHR 0x0A] @ ''d'',
       conflictCount = 0\<rparr>"
  by (rule C3_only_theirs_changed) simp

text \<open>
  C6. When ours equals theirs, \<open>threeWayMerge\<close> succeeds and the content is theirs: every
  region that both sides changed is changed alike, and the line merge does not count
  it as a conflict.
\<close>

theorem C6_ours_is_theirs:
  "success (threeWayMerge base theirs' theirs' labels) \<and>
   content (threeWayMerge base theirs' theirs' labels) = theirs' \<and>
   conflictCount (threeWayMerge base theirs' theirs' labels) = 0"
proof -
  have "threeWayMerge base theirs' theirs' labels
      = \<lparr>success = True, content = theirs', conflictCount = 0\<rparr>"
    using regions_ours_is_theirs [of "splitLines theirs'" "splitLines base"]
      splitLines_nonempty [of theirs']
    by (intro threeWayMerge_clean diff3Merge_benign) simp_all
  then show ?thesis by simp
qed

theorem C6_ours_is_theirs_witness:
  "content (threeWayMerge (''a'' @ [CHR 0x0A] @ ''b'' @ [CHR 0x0A] @ ''c'')
      (''x'' @ [CHR 0x0A] @ ''b'' @ [CHR 0x0A] @ ''y'')
      (''x'' @ [CHR 0x0A] @ ''b'' @ [CHR 0x0A] @ ''y'') None)
    = ''x'' @ [CHR 0x0A] @ ''b'' @ [CHR 0x0A] @ ''y''"
  using C6_ours_is_theirs [of "''a'' @ [CHR 0x0A] @ ''b'' @ [CHR 0x0A] @ ''c''"
      "''x'' @ [CHR 0x0A] @ ''b'' @ [CHR 0x0A] @ ''y''" None]
  by simp

end
